theory Spec2Isabelle
  imports Complex_Main "HOL-Library.Multiset" "HOL-Library.Product_Lexorder"
begin

section \<open>Data model\<close>

text \<open>
  The page-content parser hands out glyph runs as \<^verbatim>\<open>gopdf.Text\<close>; the reader copies
  them field by field into \<^verbatim>\<open>TextWord\<close> and \<^verbatim>\<open>StyledText\<close> (which calls the field
  \<^verbatim>\<open>S\<close> \<^verbatim>\<open>Text\<close>). The three structs carry the same five fields, so one record
  stands for all of them. A Go string is a byte sequence and \<^verbatim>\<open>len\<close> counts bytes:
  \<open>string\<close> is a list of bytes here as well.

  Coordinates and font sizes are \<^verbatim>\<open>float64\<close> in the source. They are modelled as
  exact real numbers: no rounding, no NaN, no infinity.
\<close>

record TextWord =
  S :: string
  X :: real
  Y :: real
  Font :: string
  FontSize :: real

text \<open>\<^verbatim>\<open>gopdf.Row\<close> and its copy \<^verbatim>\<open>TextRow\<close>: a vertical position and the runs.\<close>

record TextRow =
  Position :: int
  Words :: "TextWord list"

text \<open>
  Errors are values. \<open>Cause\<close> is an error of the page-content parser,
  \<open>PageIsNull n\<close> is \<^verbatim>\<open>fmt.Errorf("page %d is null", n)\<close>, \<open>Wrap msg n e\<close> is
  \<^verbatim>\<open>fmt.Errorf(msg + " %d: %w", n, e)\<close>, and \<open>RuntimePanic\<close> stands for a Go
  run-time panic (an index out of range).
\<close>

datatype error =
    ErrDocumentClosed
  | Cause string
  | PageIsNull int
  | Wrap string int error
  | RuntimePanic

section \<open>Sorting\<close>

text \<open>
  \<^verbatim>\<open>sort.Slice\<close> belongs to Go's standard library. On a short slice it runs
  \<^verbatim>\<open>
  for i := a + 1; i < b; i++ {
      for j := i; j > a && data.Less(j, j-1); j-- {
          data.Swap(j, j-1)
      }
  }
  \<close>
  The outer loop takes the elements from left to right; the inner loop lets the new
  element sink towards the front while it is less than its left neighbour. \<open>sink\<close>
  is the inner loop on the already sorted prefix, held nearest neighbour first.
  Elements that tie keep their input order. On a longer slice \<^verbatim>\<open>sort.Slice\<close> switches
  to a quicksort that may order ties differently; without ties the result is the same.
\<close>

fun sink :: "('a \<Rightarrow> 'a \<Rightarrow> bool) \<Rightarrow> 'a \<Rightarrow> 'a list \<Rightarrow> 'a list" where
  "sink lt x [] = [x]"
| "sink lt x (y # ys) = (if lt x y then y # sink lt x ys else x # y # ys)"

definition sortSlice :: "('a \<Rightarrow> 'a \<Rightarrow> bool) \<Rightarrow> 'a list \<Rightarrow> 'a list" where
  "sortSlice lt xs = rev (foldl (\<lambda>acc x. sink lt x acc) [] xs)"

text \<open>The comparison of both word joiners: \<^verbatim>\<open>items[a].X < items[b].X\<close>.\<close>

definition lessX :: "TextWord \<Rightarrow> TextWord \<Rightarrow> bool" where
  "lessX a b = (X a < X b)"

section \<open>Word joiner, conservative policy (PagePlainText)\<close>

text \<open>
  The first loop over the consecutive pairs of the sorted row: the smallest positive
  advance per character, \<open>0\<close> while none has been seen.
\<close>

fun minAdvance :: "real \<Rightarrow> TextWord list \<Rightarrow> real" where
  "minAdvance m (prev # cur # rest) =
     minAdvance
       (if length (S prev) > 0 then
          (let advancePerChar = (X cur - X prev) / real (length (S prev))
           in if advancePerChar > 0 \<and> (m = 0 \<or> advancePerChar < m)
              then advancePerChar else m)
        else m)
       (cur # rest)"
| "minAdvance m items = m"

text \<open>The fallback reads \<^verbatim>\<open>items[0].FontSize\<close>.\<close>

definition minCharWidth :: "TextWord list \<Rightarrow> error + real" where
  "minCharWidth items =
     (let m = minAdvance 0 items
      in if m = 0 then
           (case items of
              [] \<Rightarrow> Inl RuntimePanic
            | first # _ \<Rightarrow>
                Inr ((if FontSize first \<le> 0 then 12 else FontSize first) * 0.6))
         else Inr m)"

text \<open>The second loop: what is written to the buffer after the first run's text.\<close>

fun joinSimple :: "real \<Rightarrow> TextWord list \<Rightarrow> string" where
  "joinSimple w (prev # cur # rest) =
     (let prevEndX = X prev + real (length (S prev)) * w;
          gap = X cur - prevEndX
      in (if gap > w * 0.5 then '' '' else '''') @ S cur @ joinSimple w (cur # rest))"
| "joinSimple w items = ''''"

text \<open>The body of the row loop for a row that has runs.\<close>

definition plainRow :: "TextWord list \<Rightarrow> error + string" where
  "plainRow content =
     (let items = sortSlice lessX content
      in case minCharWidth items of
           Inl e \<Rightarrow> Inl e
         | Inr w \<Rightarrow>
             (case items of
                [] \<Rightarrow> Inl RuntimePanic
              | first # _ \<Rightarrow> Inr (S first @ joinSimple w items)))"

text \<open>
  The row loop. \<^verbatim>\<open>i < len(rows)-1\<close> holds exactly when rows follow the current one.
\<close>

fun plainRows :: "TextRow list \<Rightarrow> error + string" where
  "plainRows [] = Inr ''''"
| "plainRows (row # rest) =
     (let nl = (if rest \<noteq> [] then [CHR 0x0A] else '''')
      in if length (Words row) = 0 then
           (case plainRows rest of Inl e \<Rightarrow> Inl e | Inr t \<Rightarrow> Inr (nl @ t))
         else
           (case plainRow (Words row) of
              Inl e \<Rightarrow> Inl e
            | Inr line \<Rightarrow>
                (case plainRows rest of Inl e \<Rightarrow> Inl e | Inr t \<Rightarrow> Inr (line @ nl @ t))))"

section \<open>Word joiner, stream-order policy (extractRawText)\<close>

text \<open>The pair loop: the width estimate comes from the font sizes of the pair.\<close>

fun joinRaw :: "TextWord list \<Rightarrow> string" where
  "joinRaw (prev # cur # rest) =
     (let fontSize0 = FontSize prev;
          fontSize1 = (if fontSize0 \<le> 0 then FontSize cur else fontSize0);
          fontSize = (if fontSize1 \<le> 0 then 12 else fontSize1);
          avgCharWidth = fontSize * 0.5;
          prevEndX = X prev + real (length (S prev)) * avgCharWidth;
          gap = X cur - prevEndX
      in (if gap > avgCharWidth * 0.3 then '' '' else '''') @ S cur @ joinRaw (cur # rest))"
| "joinRaw items = ''''"

definition rawRow :: "TextWord list \<Rightarrow> error + string" where
  "rawRow content =
     (let words = sortSlice lessX content
      in case words of
           [] \<Rightarrow> Inl RuntimePanic
         | first # _ \<Rightarrow> Inr (S first @ joinRaw words))"

fun rawRows :: "TextRow list \<Rightarrow> error + string" where
  "rawRows [] = Inr ''''"
| "rawRows (row # rest) =
     (let nl = (if rest \<noteq> [] then [CHR 0x0A] else '''')
      in if length (Words row) = 0 then
           (case rawRows rest of Inl e \<Rightarrow> Inl e | Inr t \<Rightarrow> Inr (nl @ t))
         else
           (case rawRow (Words row) of
              Inl e \<Rightarrow> Inl e
            | Inr line \<Rightarrow>
                (case rawRows rest of Inl e \<Rightarrow> Inl e | Inr t \<Rightarrow> Inr (line @ nl @ t))))"

section \<open>The reader\<close>

text \<open>
  The page-content parser is an external library. What it answers for a page number
  is a parameter of the model: a null page, a failure of \<^verbatim>\<open>GetTextByRow\<close>, or the
  rows of the page.
\<close>

datatype PageSrc = NullPage | RowsError error | PageRows "TextRow list"

type_synonym Reader = "int \<Rightarrow> PageSrc"

definition PagePlainText :: "Reader \<Rightarrow> int \<Rightarrow> error + string" where
  "PagePlainText r pageNum =
     (case r pageNum of
        NullPage \<Rightarrow> Inl (PageIsNull pageNum)
      | RowsError err \<Rightarrow> Inl (Wrap ''failed to get text for page'' pageNum err)
      | PageRows rows \<Rightarrow> plainRows rows)"

definition PageTextByRow :: "Reader \<Rightarrow> int \<Rightarrow> error + TextRow list" where
  "PageTextByRow r pageNum =
     (case r pageNum of
        NullPage \<Rightarrow> Inl (PageIsNull pageNum)
      | RowsError err \<Rightarrow> Inl (Wrap ''failed to get text rows for page'' pageNum err)
      | PageRows rows \<Rightarrow> Inr rows)"

definition PageStyledTexts :: "Reader \<Rightarrow> int \<Rightarrow> error + TextWord list" where
  "PageStyledTexts r pageNum =
     (case r pageNum of
        NullPage \<Rightarrow> Inl (PageIsNull pageNum)
      | RowsError err \<Rightarrow> Inl (Wrap ''failed to get styled texts for page'' pageNum err)
      | PageRows rows \<Rightarrow> Inr (concat (map Words rows)))"

section \<open>Line assembler and physical grid (PhysicalLayoutText)\<close>

definition lessYX :: "TextWord \<Rightarrow> TextWord \<Rightarrow> bool" where
  "lessYX a b = (if Y a \<noteq> Y b then Y a > Y b else X a < X b)"

definition abs_float :: "real \<Rightarrow> real" where
  "abs_float x = (if x < 0 then - x else x)"

definition yTolerance :: real where
  "yTolerance = 2.0"

record line =
  line_y :: real
  texts :: "TextWord list"

text \<open>
  The grouping loop keeps \<^verbatim>\<open>currentLine\<close>, a pointer to the last element of
  \<^verbatim>\<open>lines\<close>. The state here is the lines before that element together with the
  element itself, \<open>None\<close> while the pointer is nil.
\<close>

fun groupStep :: "line list \<times> line option \<Rightarrow> TextWord \<Rightarrow> line list \<times> line option" where
  "groupStep (done, None) st = (done, Some \<lparr>line_y = Y st, texts = [st]\<rparr>)"
| "groupStep (done, Some currentLine) st =
     (if abs_float (line_y currentLine - Y st) > yTolerance
      then (done @ [currentLine], Some \<lparr>line_y = Y st, texts = [st]\<rparr>)
      else (done, Some (currentLine\<lparr>texts := texts currentLine @ [st]\<rparr>)))"

definition linesOf :: "line list \<times> line option \<Rightarrow> line list" where
  "linesOf st = (case st of (done, None) \<Rightarrow> done | (done, Some currentLine) \<Rightarrow> done @ [currentLine])"

definition groupLines :: "TextWord list \<Rightarrow> line list" where
  "groupLines styledTexts = linesOf (foldl groupStep ([], None) styledTexts)"

definition charsPerLine :: int where
  "charsPerLine = 80"

definition charWidth :: "real \<Rightarrow> real" where
  "charWidth pageWidth = (if pageWidth \<le> 0 then 612 else pageWidth) / real_of_int charsPerLine"

text \<open>
  \<^verbatim>\<open>int(f)\<close> drops the fraction of \<open>f\<close> (towards zero). The result is taken as an
  unbounded integer; Go leaves the conversion of a value outside the range of \<^verbatim>\<open>int\<close>
  to the implementation.
\<close>

definition float_to_int :: "real \<Rightarrow> int" where
  "float_to_int f = (if f < 0 then \<lceil>f\<rceil> else \<lfloor>f\<rfloor>)"

definition column :: "real \<Rightarrow> real \<Rightarrow> int" where
  "column cw x =
     (let col0 = float_to_int (x / cw);
          col1 = (if col0 < 0 then 0 else col0)
      in if col1 \<ge> charsPerLine then charsPerLine - 1 else col1)"

text \<open>
  The byte loop of one run, \<open>pos = col + ci\<close>. A store outside the buffer would panic.
\<close>

fun writeText :: "string \<Rightarrow> int \<Rightarrow> string \<Rightarrow> error + string" where
  "writeText lineChars pos [] = Inr lineChars"
| "writeText lineChars pos (ch # rest) =
     (if pos < charsPerLine then
        (if 0 \<le> pos \<and> pos < int (length lineChars)
         then writeText (lineChars[nat pos := ch]) (pos + 1) rest
         else Inl RuntimePanic)
      else writeText lineChars (pos + 1) rest)"

fun writeTexts :: "real \<Rightarrow> string \<Rightarrow> TextWord list \<Rightarrow> error + string" where
  "writeTexts cw lineChars [] = Inr lineChars"
| "writeTexts cw lineChars (st # rest) =
     (case writeText lineChars (column cw (X st)) (S st) of
        Inl e \<Rightarrow> Inl e
      | Inr lineChars' \<Rightarrow> writeTexts cw lineChars' rest)"

text \<open>\<^verbatim>\<open>trimRight\<close>: the index loop, then the slice \<^verbatim>\<open>s[:i+1]\<close>.\<close>

function trimRightLoop :: "string \<Rightarrow> int \<Rightarrow> error + int" where
  "trimRightLoop s i =
     (if i \<ge> 0 then
        (if i < int (length s) then
           (if s ! nat i = CHR '' '' then trimRightLoop s (i - 1) else Inr i)
         else Inl RuntimePanic)
      else Inr i)"
  by pat_completeness auto
termination
  by (relation "measure (\<lambda>(s, i). nat (i + 1))") auto

definition trimRight :: "string \<Rightarrow> error + string" where
  "trimRight s =
     (case trimRightLoop s (int (length s) - 1) of
        Inl e \<Rightarrow> Inl e
      | Inr i \<Rightarrow>
          (if 0 \<le> i + 1 \<and> i + 1 \<le> int (length s) then Inr (take (nat (i + 1)) s)
           else Inl RuntimePanic))"

definition renderLine :: "real \<Rightarrow> TextWord list \<Rightarrow> error + string" where
  "renderLine cw ts =
     (case writeTexts cw (replicate (nat charsPerLine) (CHR '' '')) (sortSlice lessX ts) of
        Inl e \<Rightarrow> Inl e
      | Inr lineChars \<Rightarrow> trimRight lineChars)"

fun renderLines :: "real \<Rightarrow> line list \<Rightarrow> error + string" where
  "renderLines cw [] = Inr ''''"
| "renderLines cw (l # rest) =
     (case renderLine cw (texts l) of
        Inl e \<Rightarrow> Inl e
      | Inr trimmed \<Rightarrow>
          (case renderLines cw rest of
             Inl e \<Rightarrow> Inl e
           | Inr t \<Rightarrow> Inr (trimmed @ (if rest \<noteq> [] then [CHR 0x0A] else '''') @ t)))"

definition PhysicalLayoutText :: "Reader \<Rightarrow> int \<Rightarrow> real \<Rightarrow> error + string" where
  "PhysicalLayoutText r pageNum pageWidth =
     (case PageStyledTexts r pageNum of
        Inl err \<Rightarrow> Inl err
      | Inr styledTexts \<Rightarrow>
          (if length styledTexts = 0 then Inr ''''
           else renderLines (charWidth pageWidth)
                  (groupLines (sortSlice lessYX styledTexts))))"

section \<open>Documents and pages\<close>

text \<open>
  A \<^verbatim>\<open>Page\<close> holds its 1-based number and a pointer to its document; the document
  is passed along with the page here. Of \<^verbatim>\<open>Document\<close> the fields that extraction
  reads are kept.
\<close>

record Page =
  Number :: int

record Document =
  reader :: Reader
  pages :: "Page list"
  closed :: bool

text \<open>\<^verbatim>\<open>Open\<close> and \<^verbatim>\<open>OpenBytes\<close> build the page list: page \<open>i\<close> has number \<open>i + 1\<close>.\<close>

definition Open :: "Reader \<Rightarrow> nat \<Rightarrow> Document" where
  "Open r numPages =
     \<lparr>reader = r, pages = map (\<lambda>i. \<lparr>Number = int i + 1\<rparr>) [0..<numPages], closed = False\<rparr>"

definition Close :: "Document \<Rightarrow> Document" where
  "Close d = (if closed d then d else d\<lparr>closed := True\<rparr>)"

definition IsClosed :: "Document \<Rightarrow> bool" where
  "IsClosed d = closed d"

definition Pages :: "Document \<Rightarrow> Page list" where
  "Pages d = pages d"

definition PlainText :: "Document \<Rightarrow> Page \<Rightarrow> error + string" where
  "PlainText doc p =
     (if closed doc then Inl ErrDocumentClosed else PagePlainText (reader doc) (Number p))"

definition TextByRow :: "Document \<Rightarrow> Page \<Rightarrow> error + TextRow list" where
  "TextByRow doc p =
     (if closed doc then Inl ErrDocumentClosed else PageTextByRow (reader doc) (Number p))"

definition StyledTexts :: "Document \<Rightarrow> Page \<Rightarrow> error + TextWord list" where
  "StyledTexts doc p =
     (if closed doc then Inl ErrDocumentClosed else PageStyledTexts (reader doc) (Number p))"

definition PagePhysicalLayoutText :: "Document \<Rightarrow> Page \<Rightarrow> real \<Rightarrow> error + string" where
  "PagePhysicalLayoutText doc p pageWidth =
     (if closed doc then Inl ErrDocumentClosed
      else PhysicalLayoutText (reader doc) (Number p) pageWidth)"

section \<open>Extraction (package extract)\<close>

type_synonym LayoutMode = int

definition LayoutSimple :: LayoutMode where "LayoutSimple = 0"
definition LayoutRaw :: LayoutMode where "LayoutRaw = 1"
definition LayoutPhysical :: LayoutMode where "LayoutPhysical = 2"

record textConfig =
  Layout :: LayoutMode
  PageSeparator :: string
  PageWidth :: real

type_synonym Option = "textConfig \<Rightarrow> textConfig"

definition WithLayout :: "LayoutMode \<Rightarrow> Option" where
  "WithLayout mode = (\<lambda>c. c\<lparr>Layout := mode\<rparr>)"

definition WithPageSeparator :: "string \<Rightarrow> Option" where
  "WithPageSeparator sep = (\<lambda>c. c\<lparr>PageSeparator := sep\<rparr>)"

definition WithPageWidth :: "real \<Rightarrow> Option" where
  "WithPageWidth width = (\<lambda>c. c\<lparr>PageWidth := width\<rparr>)"

definition defaultConfig :: textConfig where
  "defaultConfig = \<lparr>Layout = LayoutSimple, PageSeparator = [CHR 0x0A, CHR 0x0A], PageWidth = 612\<rparr>"

definition applyOptions :: "Option list \<Rightarrow> textConfig" where
  "applyOptions opts = foldl (\<lambda>cfg opt. opt cfg) defaultConfig opts"

definition extractRawText :: "Document \<Rightarrow> Page \<Rightarrow> error + string" where
  "extractRawText doc page =
     (case TextByRow doc page of Inl err \<Rightarrow> Inl err | Inr rows \<Rightarrow> rawRows rows)"

definition PageText :: "Document \<Rightarrow> Page \<Rightarrow> Option list \<Rightarrow> error + string" where
  "PageText doc page opts =
     (let cfg = applyOptions opts
      in if Layout cfg = LayoutSimple then PlainText doc page
         else if Layout cfg = LayoutRaw then extractRawText doc page
         else if Layout cfg = LayoutPhysical then PagePhysicalLayoutText doc page (PageWidth cfg)
         else PlainText doc page)"

text \<open>The page loop of \<^verbatim>\<open>AllPages\<close>, with the result slice built so far.\<close>

fun allPagesLoop :: "Document \<Rightarrow> Option list \<Rightarrow> Page list \<Rightarrow> string list \<Rightarrow> error + string list" where
  "allPagesLoop doc opts [] result = Inr result"
| "allPagesLoop doc opts (page # rest) result =
     (case PageText doc page opts of
        Inl err \<Rightarrow> Inl (Wrap ''failed to extract text from page'' (Number page) err)
      | Inr text \<Rightarrow> allPagesLoop doc opts rest (result @ [text]))"

definition AllPages :: "Document \<Rightarrow> Option list \<Rightarrow> error + string list" where
  "AllPages doc opts =
     (if IsClosed doc then Inl ErrDocumentClosed
      else allPagesLoop doc opts (Pages doc) [])"

text \<open>\<^verbatim>\<open>strings.Join\<close> of the standard library.\<close>

fun Join :: "string list \<Rightarrow> string \<Rightarrow> string" where
  "Join [] sep = ''''"
| "Join [e] sep = e"
| "Join (e # es) sep = e @ sep @ Join es sep"

definition Text :: "Document \<Rightarrow> Option list \<Rightarrow> error + string" where
  "Text doc opts =
     (if IsClosed doc then Inl ErrDocumentClosed
      else (case AllPages doc opts of
              Inl err \<Rightarrow> Inl err
            | Inr ps \<Rightarrow> Inr (Join ps (PageSeparator (applyOptions opts)))))"

section \<open>Notions of the specification\<close>

text \<open>
  \<open>weave ts seps\<close> is the concatenation of the texts \<open>ts\<close> with the \<open>i\<close>-th separator
  placed between the \<open>i\<close>-th text and the next one.
\<close>

fun weave :: "string list \<Rightarrow> string list \<Rightarrow> string" where
  "weave [] seps = ''''"
| "weave [t] seps = t"
| "weave (t # ts) [] = t @ weave ts []"
| "weave (t # ts) (sep # seps) = t @ sep @ weave ts seps"

text \<open>The consecutive pairs \<open>(prev, cur)\<close> of a list.\<close>

definition pairs :: "'a list \<Rightarrow> ('a \<times> 'a) list" where
  "pairs xs = zip xs (tl xs)"

text \<open>
  The specification's estimate of the stream-order policy: the font size of the pair
  is that of \<open>prev\<close> if positive, else that of \<open>cur\<close> if positive, else \<open>12\<close>.
\<close>

definition avgCharWidth_spec :: "TextWord \<Rightarrow> TextWord \<Rightarrow> real" where
  "avgCharWidth_spec prev cur =
     (if FontSize prev > 0 then FontSize prev
      else if FontSize cur > 0 then FontSize cur else 12) * 0.5"

definition spaceRaw_spec :: "TextWord \<times> TextWord \<Rightarrow> bool" where
  "spaceRaw_spec pc =
     (case pc of (prev, cur) \<Rightarrow>
        X cur - (X prev + real (length (S prev)) * avgCharWidth_spec prev cur)
          > avgCharWidth_spec prev cur * 0.3)"

text \<open>
  The specification's estimate of the conservative policy: the positive advances per
  character over the consecutive pairs whose first text is not empty.
\<close>

definition positiveAdvances :: "TextWord list \<Rightarrow> real list" where
  "positiveAdvances items =
     filter (\<lambda>a. a > 0)
       (map (\<lambda>(prev, cur). (X cur - X prev) / real (length (S prev)))
          (filter (\<lambda>(prev, cur). S prev \<noteq> []) (pairs items)))"

definition fallbackWidth :: "TextWord \<Rightarrow> real" where
  "fallbackWidth first = (if FontSize first \<le> 0 then 12 * 0.6 else FontSize first * 0.6)"

definition spaceSimple_spec :: "real \<Rightarrow> TextWord \<times> TextWord \<Rightarrow> bool" where
  "spaceSimple_spec w pc =
     (case pc of (prev, cur) \<Rightarrow> X cur - (X prev + real (length (S prev)) * w) > w * 0.5)"

definition sep :: "bool \<Rightarrow> string" where
  "sep b = (if b then '' '' else '''')"

definition minCharWidth_spec :: "TextWord list \<Rightarrow> real" where
  "minCharWidth_spec items =
     (case items of
        [] \<Rightarrow> 0
      | first # _ \<Rightarrow>
          if positiveAdvances items = [] then fallbackWidth first
          else Min (set (positiveAdvances items)))"

text \<open>
  The value of the first loop in terms of the advances: \<open>m\<close> is the value the loop
  starts from, \<open>0\<close> meaning that no advance has been seen.
\<close>

definition minOf :: "real \<Rightarrow> real list \<Rightarrow> real" where
  "minOf m A = (if m = 0 then (if A = [] then 0 else Min (set A)) else Min (insert m (set A)))"

text \<open>
  \<open>paint buf col text\<close> puts the bytes of \<open>text\<close> into \<open>buf\<close> from column \<open>col\<close> on
  and drops those that would land behind the end of \<open>buf\<close>.
\<close>

definition paint :: "string \<Rightarrow> nat \<Rightarrow> string \<Rightarrow> string" where
  "paint buf col text =
     take col buf @ take (length buf - col) text @ drop (col + length text) buf"

text \<open>A string without its trailing spaces.\<close>

definition stripRight :: "string \<Rightarrow> string" where
  "stripRight s = rev (dropWhile (\<lambda>c. c = CHR '' '') (rev s))"

text \<open>
  One line of the grid: 80 spaces, the runs painted in order by \<open>x\<close> (a later run
  overwrites an earlier one), trailing spaces removed.
\<close>

definition lineText :: "real \<Rightarrow> TextWord list \<Rightarrow> string" where
  "lineText cw ts =
     stripRight
       (foldl (\<lambda>buf st. paint buf (nat (column cw (X st))) (S st))
          (replicate 80 (CHR '' '')) (sortSlice lessX ts))"

text \<open>
  Two rows hold the same runs, possibly in another order, and no two runs of the row
  share their \<open>x\<close>.
\<close>

definition sameRuns :: "TextRow \<Rightarrow> TextRow \<Rightarrow> bool" where
  "sameRuns row row' = (mset (Words row) = mset (Words row') \<and> distinct (map X (Words row)))"

section \<open>Example data\<close>

definition ex_hello :: TextWord where
  "ex_hello = \<lparr>S = ''Hello'', X = 0, Y = 700, Font = ''F1'', FontSize = 10\<rparr>"

definition ex_world :: TextWord where
  "ex_world = \<lparr>S = ''World'', X = 40, Y = 700, Font = ''F1'', FontSize = 10\<rparr>"

definition ex_ab :: "real \<Rightarrow> TextWord" where
  "ex_ab x = \<lparr>S = ''ab'', X = x, Y = 700, Font = ''F1'', FontSize = 10\<rparr>"

definition ex_z :: "real \<Rightarrow> TextWord" where
  "ex_z x = \<lparr>S = ''z'', X = x, Y = 700, Font = ''F1'', FontSize = 10\<rparr>"

definition ex_at :: "real \<Rightarrow> real \<Rightarrow> string \<Rightarrow> TextWord" where
  "ex_at x y s = \<lparr>S = s, X = x, Y = y, Font = ''F1'', FontSize = 10\<rparr>"

text \<open>
  A reader with one page of two rows: a run that maps to column 85 and a run with
  trailing spaces on one height, a third run further down.
\<close>

definition ex_reader :: Reader where
  "ex_reader pageNum =
     (if pageNum = 1 then
        PageRows
          [\<lparr>Position = 100, Words = [ex_at 650.25 100 ''abc'', ex_at 15.3 100 ''hi  '']\<rparr>,
           \<lparr>Position = 50, Words = [ex_at 0 50 ''end'']\<rparr>]
      else NullPage)"

text \<open>A reader for three pages whose second page fails.\<close>

definition ex_reader3 :: Reader where
  "ex_reader3 pageNum =
     (if pageNum = 2 then RowsError (Cause ''boom'')
      else PageRows [\<lparr>Position = 700, Words = [ex_world, ex_hello]\<rparr>])"

text \<open>A reader whose pages all consist of one row with the given runs.\<close>

definition ex_one_row :: "TextWord list \<Rightarrow> Reader" where
  "ex_one_row ws pageNum = PageRows [\<lparr>Position = 100, Words = ws\<rparr>]"
section \<open>Sorting: the model is the stable sort by key\<close>

lemma mset_sink: "mset (sink lt x acc) = add_mset x (mset acc)"
  by (induction acc) auto

lemma set_sink: "set (sink lt x acc) = insert x (set acc)"
  by (induction acc) auto

lemma sorted_sink:
  fixes k :: "'a \<Rightarrow> 'b::linorder"
  assumes lt: "\<And>a b. lt a b = (k a < k b)"
  shows "sorted (map k (rev acc)) \<Longrightarrow> sorted (map k (rev (sink lt x acc)))"
proof (induction acc)
  case Nil
  then show ?case by simp
next
  case (Cons y ys)
  then show ?case
    by (auto simp: sorted_append set_sink lt)
qed

lemma filter_sink:
  fixes k :: "'a \<Rightarrow> 'b::linorder"
  assumes lt: "\<And>a b. lt a b = (k a < k b)"
  shows "filter (\<lambda>z. c = k z) (rev (sink lt x acc)) = filter (\<lambda>z. c = k z) (rev acc @ [x])"
  by (induction acc) (auto simp: lt)

lemma mset_foldl_sink:
  "mset (foldl (\<lambda>acc x. sink lt x acc) acc xs) = mset acc + mset xs"
  by (induction xs arbitrary: acc) (auto simp: mset_sink)

lemma sorted_foldl_sink:
  fixes k :: "'a \<Rightarrow> 'b::linorder"
  assumes lt: "\<And>a b. lt a b = (k a < k b)"
  shows "sorted (map k (rev acc)) \<Longrightarrow>
         sorted (map k (rev (foldl (\<lambda>acc x. sink lt x acc) acc xs)))"
proof (induction xs arbitrary: acc)
  case Nil
  then show ?case by simp
next
  case (Cons x xs)
  have "sorted (map k (rev (sink lt x acc)))"
    using Cons.prems by (rule sorted_sink [OF lt])
  then show ?case
    using Cons.IH by simp
qed

lemma filter_foldl_sink:
  fixes k :: "'a \<Rightarrow> 'b::linorder"
  assumes lt: "\<And>a b. lt a b = (k a < k b)"
  shows "filter (\<lambda>z. c = k z) (rev (foldl (\<lambda>acc x. sink lt x acc) acc xs))
         = filter (\<lambda>z. c = k z) (rev acc @ xs)"
proof (induction xs arbitrary: acc)
  case Nil
  then show ?case by simp
next
  case (Cons x xs)
  have "filter (\<lambda>z. c = k z) (rev (foldl (\<lambda>acc x. sink lt x acc) (sink lt x acc) xs))
        = filter (\<lambda>z. c = k z) (rev (sink lt x acc)) @ filter (\<lambda>z. c = k z) xs"
    using Cons.IH [of "sink lt x acc"] by simp
  then show ?case
    by (simp add: filter_sink [OF lt])
qed

lemma sortSlice_sort_key:
  fixes k :: "'a \<Rightarrow> 'b::linorder"
  assumes lt: "\<And>a b. lt a b = (k a < k b)"
  shows "sortSlice lt xs = sort_key k xs"
proof (rule sym, rule properties_for_sort_key)
  show "mset (sortSlice lt xs) = mset xs"
    by (simp add: sortSlice_def mset_foldl_sink)
  show "sorted (map k (sortSlice lt xs))"
    unfolding sortSlice_def by (rule sorted_foldl_sink [OF lt]) simp
  fix a assume "a \<in> set (sortSlice lt xs)"
  show "filter (\<lambda>x. k a = k x) (sortSlice lt xs) = filter (\<lambda>x. k a = k x) xs"
    unfolding sortSlice_def using filter_foldl_sink [OF lt, where c = "k a" and acc = "[]" and xs = xs] by simp
qed

lemma sortSlice_lessX: "sortSlice lessX xs = sort_key X xs"
  by (rule sortSlice_sort_key) (simp add: lessX_def)

lemma sortSlice_lessYX: "sortSlice lessYX xs = sort_key (\<lambda>t. (- Y t, X t)) xs"
  by (rule sortSlice_sort_key) (auto simp: lessYX_def less_prod_def)

section \<open>The pair loops in terms of the specification\<close>

lemma joinSimple_step:
  "joinSimple w (prev # cur # rest)
     = sep (spaceSimple_spec w (prev, cur)) @ S cur @ joinSimple w (cur # rest)"
  by (simp add: sep_def spaceSimple_spec_def Let_def)

lemma joinRaw_step:
  "joinRaw (prev # cur # rest)
     = sep (spaceRaw_spec (prev, cur)) @ S cur @ joinRaw (cur # rest)"
  by (cases "FontSize prev \<le> 0"; cases "FontSize cur \<le> 0";
      simp add: sep_def spaceRaw_spec_def avgCharWidth_spec_def Let_def mult.commute)

lemma joinSimple_weave:
  "S first @ joinSimple w (first # rest)
     = weave (map S (first # rest)) (map (\<lambda>pc. sep (spaceSimple_spec w pc)) (pairs (first # rest)))"
proof (induction rest arbitrary: first)
  case Nil
  then show ?case by (simp add: pairs_def)
next
  case (Cons cur rest)
  show ?case
    using Cons.IH [of cur]
    by (simp only: joinSimple_step) (simp add: pairs_def)
qed

lemma joinRaw_weave:
  "S first @ joinRaw (first # rest)
     = weave (map S (first # rest)) (map (\<lambda>pc. sep (spaceRaw_spec pc)) (pairs (first # rest)))"
proof (induction rest arbitrary: first)
  case Nil
  then show ?case by (simp add: pairs_def)
next
  case (Cons cur rest)
  show ?case
    using Cons.IH [of cur]
    by (simp only: joinRaw_step) (simp add: pairs_def)
qed

section \<open>The width estimate of the conservative policy\<close>

lemma positiveAdvances_pos: "b \<in> set (positiveAdvances items) \<Longrightarrow> 0 < b"
  by (simp add: positiveAdvances_def)

lemma positiveAdvances_step:
  "positiveAdvances (prev # cur # rest)
     = (if S prev \<noteq> [] \<and> (X cur - X prev) / real (length (S prev)) > 0
        then (X cur - X prev) / real (length (S prev)) # positiveAdvances (cur # rest)
        else positiveAdvances (cur # rest))"
  by (simp add: positiveAdvances_def pairs_def)

lemma positiveAdvances_short [simp]:
  "positiveAdvances [] = []" "positiveAdvances [t] = []"
  by (simp_all add: positiveAdvances_def pairs_def)

lemma minOf_Cons:
  "0 \<le> m \<Longrightarrow> 0 < a \<Longrightarrow>
   minOf m (a # B) = minOf (if m = 0 \<or> a < m then a else m) B"
  by (cases "B = []") (auto simp: minOf_def min_def)

lemma minAdvance_minOf:
  "0 \<le> m \<Longrightarrow> minAdvance m items = minOf m (positiveAdvances items)"
proof (induction m items rule: minAdvance.induct)
  case (1 m prev cur rest)
  define a where "a = (X cur - X prev) / real (length (S prev))"
  define m' where "m' = (if S prev \<noteq> [] \<and> a > 0 \<and> (m = 0 \<or> a < m) then a else m)"
  have step: "minAdvance m (prev # cur # rest) = minAdvance m' (cur # rest)"
    by (auto simp add: m'_def a_def Let_def)
  have m': "0 \<le> m'" using "1.prems" by (simp add: m'_def)
  have arg: "(if length (S prev) > 0 then
          (let advancePerChar = (X cur - X prev) / real (length (S prev))
           in if advancePerChar > 0 \<and> (m = 0 \<or> advancePerChar < m)
              then advancePerChar else m)
        else m) = m'"
    by (auto simp add: m'_def a_def Let_def)
  have IH: "minAdvance m' (cur # rest) = minOf m' (positiveAdvances (cur # rest))"
    using "1.IH" m' unfolding arg .
  have step: "minAdvance m (prev # cur # rest) = minAdvance m' (cur # rest)"
    by (simp only: minAdvance.simps arg)
  show ?case
  proof (cases "S prev \<noteq> [] \<and> a > 0")
    case True
    then have "positiveAdvances (prev # cur # rest) = a # positiveAdvances (cur # rest)"
      by (simp add: positiveAdvances_step a_def)
    moreover have "m' = (if m = 0 \<or> a < m then a else m)"
      using True by (simp add: m'_def)
    ultimately show ?thesis
      using minOf_Cons [OF "1.prems", of a "positiveAdvances (cur # rest)"] True step IH
      by simp
  next
    case False
    then have "positiveAdvances (prev # cur # rest) = positiveAdvances (cur # rest)"
      by (auto simp add: positiveAdvances_step a_def)
    moreover have "m' = m"
      using False by (auto simp add: m'_def)
    ultimately show ?thesis
      using step IH by simp
  qed
qed (simp_all add: minOf_def)

lemma minCharWidth_Cons:
  "minCharWidth (first # rest) =
     Inr (if positiveAdvances (first # rest) = [] then fallbackWidth first
          else Min (set (positiveAdvances (first # rest))))"
proof -
  have m: "minAdvance 0 (first # rest) = minOf 0 (positiveAdvances (first # rest))"
    by (rule minAdvance_minOf) simp
  show ?thesis
  proof (cases "positiveAdvances (first # rest) = []")
    case True
    then show ?thesis
      by (simp add: minCharWidth_def m minOf_def fallbackWidth_def)
  next
    case False
    then have "Min (set (positiveAdvances (first # rest))) \<in> set (positiveAdvances (first # rest))"
      by (intro Min_in) simp_all
    then have "0 < Min (set (positiveAdvances (first # rest)))"
      by (rule positiveAdvances_pos)
    then have "Min (set (positiveAdvances (first # rest))) \<noteq> 0"
      by linarith
    then have "minOf 0 (positiveAdvances (first # rest)) \<noteq> 0"
      using False by (simp only: minOf_def if_True if_False) simp
    then show ?thesis
      using False by (simp add: minCharWidth_def m Let_def) (simp add: minOf_def)
  qed
qed

section \<open>Rows as woven texts\<close>

lemma sortSlice_lessX_Nil_iff: "sortSlice lessX content = [] \<longleftrightarrow> content = []"
proof -
  have "length (sortSlice lessX content) = length content"
    by (simp add: sortSlice_lessX)
  then show ?thesis by (metis length_0_conv)
qed

lemma mset_sortSlice_lessX: "mset (sortSlice lessX content) = mset content"
  by (simp add: sortSlice_lessX)

lemma sorted_sortSlice_lessX: "sorted (map X (sortSlice lessX content))"
  by (simp add: sortSlice_lessX)

lemma length_pairs: "length (pairs xs) = length xs - 1"
  by (simp add: pairs_def)

lemma set_sep: "set (map (\<lambda>pc. sep (P pc)) ps) \<subseteq> {'''', '' ''}"
  by (auto simp: sep_def)

lemma plainRow_weave:
  assumes "content \<noteq> []"
  shows "plainRow content =
           Inr (weave (map S (sortSlice lessX content))
                  (map (\<lambda>pc. sep (spaceSimple_spec (minCharWidth_spec (sortSlice lessX content)) pc))
                     (pairs (sortSlice lessX content))))"
proof -
  obtain first rest where items: "sortSlice lessX content = first # rest"
    using assms sortSlice_lessX_Nil_iff [of content] by (cases "sortSlice lessX content") auto
  have w: "minCharWidth (first # rest) = Inr (minCharWidth_spec (first # rest))"
    by (simp add: minCharWidth_Cons minCharWidth_spec_def)
  show ?thesis
    unfolding plainRow_def items Let_def w
    by (simp only: sum.case list.case joinSimple_weave)
qed

lemma rawRow_weave:
  assumes "content \<noteq> []"
  shows "rawRow content =
           Inr (weave (map S (sortSlice lessX content))
                  (map (\<lambda>pc. sep (spaceRaw_spec pc)) (pairs (sortSlice lessX content))))"
proof -
  obtain first rest where items: "sortSlice lessX content = first # rest"
    using assms sortSlice_lessX_Nil_iff [of content] by (cases "sortSlice lessX content") auto
  show ?thesis
    unfolding rawRow_def items Let_def
    by (simp only: sum.case list.case joinRaw_weave)
qed

section \<open>The line assembler\<close>

lemma sorted_sortSlice_lessYX:
  "sorted_wrt (\<lambda>a b. Y a > Y b \<or> (Y a = Y b \<and> X a \<le> X b)) (sortSlice lessYX xs)"
proof -
  have "sorted (map (\<lambda>t. (- Y t, X t)) (sortSlice lessYX xs))"
    by (simp add: sortSlice_lessYX)
  then have "sorted_wrt (\<lambda>a b. (- Y a, X a) \<le> (- Y b, X b)) (sortSlice lessYX xs)"
    by (simp add: sorted_map)
  then show ?thesis
    by (rule sorted_wrt_mono_rel [rotated]) (auto simp: less_eq_prod_def)
qed

lemma foldl_groupStep_Some:
  "\<exists>done' c'. foldl groupStep (done, Some c) xs = (done', Some c')"
  by (induction xs arbitrary: "done" c) auto

lemma groupLines_Nil: "groupLines [] = []"
  by (simp add: groupLines_def linesOf_def)

lemma linesOf_groupStep:
  assumes "s = ([], None) \<or> (\<exists>d c. s = (d, Some c))"
  shows "linesOf (groupStep s st) =
           (if linesOf s = [] \<or> \<bar>line_y (last (linesOf s)) - Y st\<bar> > 2
            then linesOf s @ [\<lparr>line_y = Y st, texts = [st]\<rparr>]
            else butlast (linesOf s)
                   @ [(last (linesOf s))\<lparr>texts := texts (last (linesOf s)) @ [st]\<rparr>])"
  using assms
  by (auto simp: linesOf_def abs_float_def yTolerance_def abs_if)

lemma foldl_groupStep_shape:
  "foldl groupStep ([], None) xs = ([], None) \<or>
   (\<exists>d c. foldl groupStep ([], None) xs = (d, Some c))"
proof (cases xs)
  case Nil
  then show ?thesis by simp
next
  case (Cons x xs')
  then show ?thesis
    using foldl_groupStep_Some [of "[]" "\<lparr>line_y = Y x, texts = [x]\<rparr>" xs'] by simp
qed

lemma groupLines_snoc:
  "groupLines (xs @ [st]) =
     (if groupLines xs = [] \<or> \<bar>line_y (last (groupLines xs)) - Y st\<bar> > 2
      then groupLines xs @ [\<lparr>line_y = Y st, texts = [st]\<rparr>]
      else butlast (groupLines xs)
             @ [(last (groupLines xs))\<lparr>texts := texts (last (groupLines xs)) @ [st]\<rparr>])"
  unfolding groupLines_def
  using linesOf_groupStep [OF foldl_groupStep_shape [of xs], of st]
  by simp

lemma groupLines_anchor:
  "l \<in> set (groupLines xs) \<Longrightarrow> texts l \<noteq> [] \<and> line_y l = Y (hd (texts l))"
proof (induction xs arbitrary: l rule: rev_induct)
  case Nil
  then show ?case by (simp add: groupLines_Nil)
next
  case (snoc st xs)
  show ?case
  proof (cases "groupLines xs = [] \<or> \<bar>line_y (last (groupLines xs)) - Y st\<bar> > 2")
    case True
    then have "groupLines (xs @ [st]) = groupLines xs @ [\<lparr>line_y = Y st, texts = [st]\<rparr>]"
      by (simp only: groupLines_snoc if_True)
    then show ?thesis using snoc by auto
  next
    case False
    then have ne: "groupLines xs \<noteq> []" by simp
    from False have eq: "groupLines (xs @ [st]) = butlast (groupLines xs)
             @ [(last (groupLines xs))\<lparr>texts := texts (last (groupLines xs)) @ [st]\<rparr>]"
      by (simp only: groupLines_snoc if_False)
    have lst: "last (groupLines xs) \<in> set (groupLines xs)"
      using ne by simp
    have "l \<in> set (butlast (groupLines xs)) \<or>
          l = (last (groupLines xs))\<lparr>texts := texts (last (groupLines xs)) @ [st]\<rparr>"
      using snoc.prems eq by auto
    then show ?thesis
    proof
      assume "l \<in> set (butlast (groupLines xs))"
      then have "l \<in> set (groupLines xs)" by (rule in_set_butlastD)
      then show ?thesis by (rule snoc.IH)
    next
      assume "l = (last (groupLines xs))\<lparr>texts := texts (last (groupLines xs)) @ [st]\<rparr>"
      then show ?thesis using snoc.IH [OF lst] by simp
    qed
  qed
qed

lemma groupLines_concat: "concat (map texts (groupLines xs)) = xs"
proof (induction xs rule: rev_induct)
  case Nil
  then show ?case by (simp add: groupLines_Nil)
next
  case (snoc st xs)
  show ?case
  proof (cases "groupLines xs = [] \<or> \<bar>line_y (last (groupLines xs)) - Y st\<bar> > 2")
    case True
    then have "groupLines (xs @ [st]) = groupLines xs @ [\<lparr>line_y = Y st, texts = [st]\<rparr>]"
      by (simp only: groupLines_snoc if_True)
    then show ?thesis using snoc by simp
  next
    case False
    then have ne: "groupLines xs \<noteq> []" by simp
    from False have eq: "groupLines (xs @ [st]) = butlast (groupLines xs)
             @ [(last (groupLines xs))\<lparr>texts := texts (last (groupLines xs)) @ [st]\<rparr>]"
      by (simp only: groupLines_snoc if_False)
    have "concat (map texts (butlast (groupLines xs) @ [last (groupLines xs)])) = xs"
      using ne snoc by simp
    then show ?thesis
      unfolding eq by simp
  qed
qed

lemma groupLines_within:
  "l \<in> set (groupLines xs) \<Longrightarrow> t \<in> set (texts l) \<Longrightarrow> \<bar>line_y l - Y t\<bar> \<le> 2"
proof (induction xs arbitrary: l t rule: rev_induct)
  case Nil
  then show ?case by (simp add: groupLines_Nil)
next
  case (snoc st xs)
  show ?case
  proof (cases "groupLines xs = [] \<or> \<bar>line_y (last (groupLines xs)) - Y st\<bar> > 2")
    case True
    then have "groupLines (xs @ [st]) = groupLines xs @ [\<lparr>line_y = Y st, texts = [st]\<rparr>]"
      by (simp only: groupLines_snoc if_True)
    then show ?thesis using snoc by auto
  next
    case False
    then have ne: "groupLines xs \<noteq> []"
      and near: "\<bar>line_y (last (groupLines xs)) - Y st\<bar> \<le> 2" by simp_all
    from False have eq: "groupLines (xs @ [st]) = butlast (groupLines xs)
             @ [(last (groupLines xs))\<lparr>texts := texts (last (groupLines xs)) @ [st]\<rparr>]"
      by (simp only: groupLines_snoc if_False)
    have lst: "last (groupLines xs) \<in> set (groupLines xs)"
      using ne by simp
    have "l \<in> set (butlast (groupLines xs)) \<or>
          l = (last (groupLines xs))\<lparr>texts := texts (last (groupLines xs)) @ [st]\<rparr>"
      using snoc.prems(1) eq by auto
    then show ?thesis
    proof
      assume "l \<in> set (butlast (groupLines xs))"
      then have "l \<in> set (groupLines xs)" by (rule in_set_butlastD)
      then show ?thesis using snoc.prems(2) by (rule snoc.IH)
    next
      assume l: "l = (last (groupLines xs))\<lparr>texts := texts (last (groupLines xs)) @ [st]\<rparr>"
      then have "t \<in> set (texts (last (groupLines xs))) \<or> t = st"
        using snoc.prems(2) by auto
      then show ?thesis
        using snoc.IH [OF lst] near l by auto
    qed
  qed
qed

section \<open>The grid\<close>

lemma charWidth_pos: "0 < charWidth pageWidth"
  by (simp add: charWidth_def charsPerLine_def)

lemma column_clamp: "column cw x = max 0 (min 79 \<lfloor>x / cw\<rfloor>)"
proof (cases "x / cw < 0")
  case True
  define k where "k = \<lceil>x / cw\<rceil>"
  have k: "k \<le> 0"
    using True unfolding k_def by (simp add: ceiling_le_zero)
  have f: "\<lfloor>x / cw\<rfloor> < 0"
    using True by simp
  have "column cw x = (if (if k < 0 then 0 else k) \<ge> 80 then 80 - 1 else (if k < 0 then 0 else k))"
    using True by (simp only: column_def float_to_int_def charsPerLine_def Let_def k_def if_True)
  also have "\<dots> = 0"
    using k by simp
  finally show ?thesis
    using f by simp
next
  case False
  then show ?thesis
    by (auto simp add: column_def float_to_int_def charsPerLine_def Let_def)
qed

lemma column_range: "0 \<le> column cw x" "column cw x \<le> 79"
  by (simp_all add: column_clamp)

lemma length_paint: "length (paint buf col text) = length buf"
  by (auto simp: paint_def)


lemma paint_full: "length buf \<le> col \<Longrightarrow> paint buf col text = buf"
  by (simp add: paint_def)

lemma paint_Nil: "paint buf col [] = buf"
  by (simp add: paint_def)

lemma paint_Cons:
  assumes "col < length buf"
  shows "paint buf col (ch # rest) = paint (buf[col := ch]) (Suc col) rest"
proof -
  have "length buf - col = Suc (length buf - Suc col)"
    using assms by arith
  then show ?thesis
    using assms by (simp add: paint_def take_Suc_conv_app_nth)
qed

lemma writeText_paint:
  "length buf = 80 \<Longrightarrow> 0 \<le> pos \<Longrightarrow> writeText buf pos bytes = Inr (paint buf (nat pos) bytes)"
proof (induction bytes arbitrary: buf pos)
  case Nil
  then show ?case by (simp add: paint_Nil)
next
  case (Cons ch rest)
  show ?case
  proof (cases "pos < 80")
    case True
    then have p: "nat pos < length buf" using Cons.prems by simp
    have "writeText (buf[nat pos := ch]) (pos + 1) rest
            = Inr (paint (buf[nat pos := ch]) (nat (pos + 1)) rest)"
      using Cons.prems by (intro Cons.IH) simp_all
    moreover have "nat (pos + 1) = Suc (nat pos)"
      using Cons.prems by simp
    ultimately show ?thesis
      using True Cons.prems p by (simp add: charsPerLine_def paint_Cons)
  next
    case False
    have "writeText buf (pos + 1) rest = Inr (paint buf (nat (pos + 1)) rest)"
      using Cons.prems by (intro Cons.IH) simp_all
    then show ?thesis
      using False Cons.prems by (simp add: charsPerLine_def paint_full)
  qed
qed

lemma writeTexts_paint:
  "length buf = 80 \<Longrightarrow>
   writeTexts cw buf ts = Inr (foldl (\<lambda>buf st. paint buf (nat (column cw (X st))) (S st)) buf ts)"
proof (induction ts arbitrary: buf)
  case Nil
  then show ?case by simp
next
  case (Cons st rest)
  have "writeText buf (column cw (X st)) (S st) = Inr (paint buf (nat (column cw (X st))) (S st))"
    using Cons.prems column_range(1) by (rule writeText_paint)
  moreover have "length (paint buf (nat (column cw (X st))) (S st)) = 80"
    using Cons.prems by (simp add: length_paint)
  ultimately show ?case
    using Cons.IH by simp
qed


lemma stripRight_snoc_space: "stripRight (s @ [CHR '' '']) = stripRight s"
  by (simp add: stripRight_def)

lemma stripRight_snoc_other: "c \<noteq> CHR '' '' \<Longrightarrow> stripRight (s @ [c]) = s @ [c]"
  by (simp add: stripRight_def)

lemma stripRight_Nil: "stripRight [] = []"
  by (simp add: stripRight_def)

lemma stripRight_padding: "\<exists>k. s = stripRight s @ replicate k (CHR '' '')"
proof -
  let ?P = "\<lambda>c. c = CHR '' ''"
  have "rev s = takeWhile ?P (rev s) @ dropWhile ?P (rev s)"
    by simp
  then have "s = rev (dropWhile ?P (rev s)) @ rev (takeWhile ?P (rev s))"
    by (metis rev_append rev_rev_ident)
  moreover have "\<forall>c \<in> set (rev (takeWhile ?P (rev s))). c = CHR '' ''"
    by (auto dest: set_takeWhileD)
  then have "replicate (length (rev (takeWhile ?P (rev s)))) (CHR '' '')
               = rev (takeWhile ?P (rev s))"
    by (rule replicate_length_same)
  ultimately have "s = stripRight s @ replicate (length (rev (takeWhile ?P (rev s)))) (CHR '' '')"
    unfolding stripRight_def by (simp only:)
  then show ?thesis ..
qed


lemma length_stripRight: "length (stripRight s) \<le> length s"
  by (simp add: stripRight_def length_dropWhile_le [of _ "rev s", simplified])

lemma take_stripRight: "take (length (stripRight s)) s = stripRight s"
proof -
  obtain k where "s = stripRight s @ replicate k (CHR '' '')"
    using stripRight_padding by blast
  then have "take (length (stripRight s)) s
               = take (length (stripRight s)) (stripRight s @ replicate k (CHR '' ''))"
    by simp
  then show ?thesis by simp
qed

lemma trimRightLoop_strip:
  "n \<le> length s \<Longrightarrow>
   trimRightLoop s (int n - 1) = Inr (int (length (stripRight (take n s))) - 1)"
proof (induction n)
  case 0
  then show ?case by (simp add: stripRight_Nil)
next
  case (Suc m)
  then have m: "m < length s" by simp
  have t: "take (Suc m) s = take m s @ [s ! m]"
    using m by (rule take_Suc_conv_app_nth)
  have unroll: "trimRightLoop s (int (Suc m) - 1) =
          (if s ! m = CHR '' '' then trimRightLoop s (int m - 1) else Inr (int m))"
    using m by (subst trimRightLoop.simps) simp
  show ?case
  proof (cases "s ! m = CHR '' ''")
    case True
    then show ?thesis
      using Suc.IH m unroll t by (simp add: stripRight_snoc_space)
  next
    case False
    then show ?thesis
      using unroll t m by (simp add: stripRight_snoc_other)
  qed
qed

lemma trimRight_strip: "trimRight s = Inr (stripRight s)"
proof -
  have "trimRightLoop s (int (length s) - 1) = Inr (int (length (stripRight s)) - 1)"
    using trimRightLoop_strip [of "length s" s] by simp
  then show ?thesis
    using length_stripRight [of s] by (simp add: trimRight_def take_stripRight)
qed

lemma renderLine_lineText: "renderLine cw ts = Inr (lineText cw ts)"
  by (simp add: renderLine_def lineText_def charsPerLine_def writeTexts_paint trimRight_strip)

lemma renderLines_Join:
  "renderLines cw lines = Inr (Join (map (\<lambda>l. lineText cw (texts l)) lines) [CHR 0x0A])"
proof (induction lines)
  case Nil
  then show ?case by simp
next
  case (Cons l rest)
  then show ?case
    by (cases rest) (simp_all add: renderLine_lineText)
qed

lemma PhysicalLayoutText_rows:
  assumes "r pageNum = PageRows rows"
  shows "PhysicalLayoutText r pageNum pageWidth =
           (if concat (map Words rows) = [] then Inr ''''
            else Inr (Join (map (\<lambda>l. lineText (charWidth pageWidth) (texts l))
                              (groupLines (sortSlice lessYX (concat (map Words rows)))))
                        [CHR 0x0A]))"
  using assms by (simp add: PhysicalLayoutText_def PageStyledTexts_def renderLines_Join)

section \<open>Totality and the page loop\<close>

lemma plainRow_total: "content \<noteq> [] \<Longrightarrow> \<exists>line. plainRow content = Inr line"
  using plainRow_weave by blast

lemma rawRow_total: "content \<noteq> [] \<Longrightarrow> \<exists>line. rawRow content = Inr line"
  using rawRow_weave by blast

lemma plainRows_total: "\<exists>out. plainRows rows = Inr out"
proof (induction rows)
  case Nil
  then show ?case by simp
next
  case (Cons row rest)
  then obtain t where t: "plainRows rest = Inr t" by blast
  show ?case
  proof (cases "Words row = []")
    case True
    then show ?thesis using t by simp
  next
    case False
    then obtain line where "plainRow (Words row) = Inr line"
      using plainRow_total by blast
    then show ?thesis using t False by simp
  qed
qed

lemma rawRows_total: "\<exists>out. rawRows rows = Inr out"
proof (induction rows)
  case Nil
  then show ?case by simp
next
  case (Cons row rest)
  then obtain t where t: "rawRows rest = Inr t" by blast
  show ?case
  proof (cases "Words row = []")
    case True
    then show ?thesis using t by simp
  next
    case False
    then obtain line where "rawRow (Words row) = Inr line"
      using rawRow_total by blast
    then show ?thesis using t False by simp
  qed
qed

lemma PhysicalLayoutText_total:
  "r pageNum = PageRows rows \<Longrightarrow> \<exists>out. PhysicalLayoutText r pageNum pageWidth = Inr out"
  by (simp add: PhysicalLayoutText_rows)

lemma PageText_cases:
  "PageText doc page opts = PlainText doc page \<or>
   PageText doc page opts = extractRawText doc page \<or>
   PageText doc page opts = PagePhysicalLayoutText doc page (PageWidth (applyOptions opts))"
  by (simp add: PageText_def Let_def)

lemma PageText_closed: "closed doc \<Longrightarrow> PageText doc page opts = Inl ErrDocumentClosed"
  by (simp add: PageText_def PlainText_def extractRawText_def TextByRow_def
      PagePhysicalLayoutText_def Let_def)

lemma PageText_rows:
  assumes "\<not> closed doc" and "reader doc (Number page) = PageRows rows"
  shows "\<exists>out. PageText doc page opts = Inr out"
proof -
  have "\<exists>out. PlainText doc page = Inr out"
    using assms plainRows_total by (simp add: PlainText_def PagePlainText_def)
  moreover have "\<exists>out. extractRawText doc page = Inr out"
    using assms rawRows_total by (simp add: extractRawText_def TextByRow_def PageTextByRow_def)
  moreover have "\<exists>out. PagePhysicalLayoutText doc page (PageWidth (applyOptions opts)) = Inr out"
    using assms PhysicalLayoutText_total by (simp add: PagePhysicalLayoutText_def)
  ultimately show ?thesis
    using PageText_cases [of doc page opts] by metis
qed

lemma PageText_no_panic: "PageText doc page opts \<noteq> Inl RuntimePanic"
proof (cases "closed doc")
  case True
  then show ?thesis by (simp add: PageText_closed)
next
  case False
  show ?thesis
  proof (cases "reader doc (Number page)")
    case NullPage
    then show ?thesis
      using False
      by (simp add: PageText_def PlainText_def extractRawText_def TextByRow_def
          PagePhysicalLayoutText_def PagePlainText_def PageTextByRow_def PhysicalLayoutText_def
          PageStyledTexts_def Let_def)
  next
    case (RowsError e)
    then show ?thesis
      using False
      by (simp add: PageText_def PlainText_def extractRawText_def TextByRow_def
          PagePhysicalLayoutText_def PagePlainText_def PageTextByRow_def PhysicalLayoutText_def
          PageStyledTexts_def Let_def)
  next
    case (PageRows rows)
    then show ?thesis
      using PageText_rows [OF False, of page rows opts] by auto
  qed
qed

lemma allPagesLoop_fail:
  assumes "\<forall>p \<in> set before. \<exists>t. PageText doc p opts = Inr t"
      and "PageText doc page opts = Inl err"
  shows "allPagesLoop doc opts (before @ page # after) acc
           = Inl (Wrap ''failed to extract text from page'' (Number page) err)"
  using assms
proof (induction before arbitrary: acc)
  case Nil
  then show ?case by simp
next
  case (Cons p before)
  then obtain t where "PageText doc p opts = Inr t" by auto
  then show ?case using Cons by simp
qed

lemma allPagesLoop_ok:
  "allPagesLoop doc opts ps acc = Inr result \<Longrightarrow>
   map Inr result = map Inr acc @ map (\<lambda>p. PageText doc p opts) ps"
proof (induction ps arbitrary: acc)
  case Nil
  then show ?case by simp
next
  case (Cons p ps)
  show ?case
  proof (cases "PageText doc p opts")
    case (Inl e)
    then show ?thesis using Cons.prems by simp
  next
    case (Inr t)
    then have "allPagesLoop doc opts ps (acc @ [t]) = Inr result"
      using Cons.prems by simp
    then have "map Inr result = map Inr (acc @ [t]) @ map (\<lambda>p. PageText doc p opts) ps"
      by (rule Cons.IH)
    then show ?thesis using Inr by simp
  qed
qed

lemma AllPages_fail:
  assumes "\<not> closed doc" and "pages doc = before @ page # after"
      and "\<forall>p \<in> set before. \<exists>t. PageText doc p opts = Inr t"
      and "PageText doc page opts = Inl err"
  shows "AllPages doc opts = Inl (Wrap ''failed to extract text from page'' (Number page) err)"
    and "Text doc opts = Inl (Wrap ''failed to extract text from page'' (Number page) err)"
proof -
  show a: "AllPages doc opts = Inl (Wrap ''failed to extract text from page'' (Number page) err)"
    using assms(1,2) allPagesLoop_fail [OF assms(3,4), of after "[]"]
    by (simp add: AllPages_def IsClosed_def Pages_def)
  show "Text doc opts = Inl (Wrap ''failed to extract text from page'' (Number page) err)"
    using assms(1) a by (simp add: Text_def IsClosed_def)
qed

lemma AllPages_ok:
  assumes "AllPages doc opts = Inr result"
  shows "map Inr result = map (\<lambda>p. PageText doc p opts) (pages doc)"
proof -
  have "allPagesLoop doc opts (pages doc) [] = Inr result"
    using assms by (simp add: AllPages_def Pages_def split: if_splits)
  then show ?thesis
    using allPagesLoop_ok by fastforce
qed

lemma Number_pages_Open: "map Number (pages (Open r n)) = map int [1..<Suc n]"
proof -
  have "map Number (pages (Open r n)) = map (\<lambda>i. int i + 1) [0..<n]"
    by (simp add: Open_def comp_def)
  also have "\<dots> = map int (map Suc [0..<n])"
    by simp
  also have "map Suc [0..<n] = [1..<Suc n]"
    by (simp add: map_Suc_upt)
  finally show ?thesis .
qed

lemma pages_Open3:
  "pages (Open r 3) = [\<lparr>Number = 1\<rparr>] @ \<lparr>Number = 2\<rparr> # [\<lparr>Number = 3\<rparr>]"
  by (simp add: Open_def upt_rec)

section \<open>Sorting permuted input\<close>

lemma sort_key_perm:
  fixes k :: "'a \<Rightarrow> 'b::linorder"
  assumes m: "mset xs = mset ys" and d: "distinct (map k xs)"
  shows "sort_key k xs = sort_key k ys"
proof -
  have mk: "mset (map k xs) = mset (map k ys)"
    using m by (metis mset_map)
  then have d': "distinct (map k ys)"
    using d by (metis mset_eq_imp_distinct_iff)
  have s: "set xs = set ys"
    using m by (rule mset_eq_setD)
  have "map k (sort_key k xs) = map k (sort_key k ys)"
  proof (rule sorted_distinct_set_unique)
    show "sorted (map k (sort_key k xs))" "sorted (map k (sort_key k ys))"
      by simp_all
    show "distinct (map k (sort_key k xs))"
      using d by (metis distinct_map distinct_sort set_sort)
    show "distinct (map k (sort_key k ys))"
      using d' by (metis distinct_map distinct_sort set_sort)
    show "set (map k (sort_key k xs)) = set (map k (sort_key k ys))"
      using s by simp
  qed
  moreover have "inj_on k (set (sort_key k xs) \<union> set (sort_key k ys))"
    using d s by (simp add: distinct_map)
  ultimately show ?thesis
    by (simp add: inj_on_map_eq_map)
qed

lemma sortSlice_lessX_perm:
  "mset xs = mset ys \<Longrightarrow> distinct (map X xs) \<Longrightarrow> sortSlice lessX xs = sortSlice lessX ys"
  by (simp add: sortSlice_lessX sort_key_perm)

lemma sortSlice_lessYX_perm:
  assumes "mset xs = mset ys" and "distinct (map (\<lambda>t. (X t, Y t)) xs)"
  shows "sortSlice lessYX xs = sortSlice lessYX ys"
proof -
  have "inj_on (\<lambda>t. (X t, Y t)) (set xs)" and dx: "distinct xs"
    using assms(2) by (simp_all add: distinct_map)
  then have "inj_on (\<lambda>t. (- Y t, X t)) (set xs)"
    by (auto simp: inj_on_def)
  then have "distinct (map (\<lambda>t. (- Y t, X t)) xs)"
    using dx by (simp add: distinct_map)
  then show ?thesis
    using assms(1) by (simp add: sortSlice_lessYX sort_key_perm)
qed

lemma plainRow_perm:
  "mset xs = mset ys \<Longrightarrow> distinct (map X xs) \<Longrightarrow> plainRow xs = plainRow ys"
  using sortSlice_lessX_perm [of xs ys] by (simp add: plainRow_def)

lemma rawRow_perm:
  "mset xs = mset ys \<Longrightarrow> distinct (map X xs) \<Longrightarrow> rawRow xs = rawRow ys"
  using sortSlice_lessX_perm [of xs ys] by (simp add: rawRow_def)

lemma plainRows_perm:
  "list_all2 sameRuns rows rows' \<Longrightarrow> plainRows rows = plainRows rows'"
proof (induction rows rows' rule: list_all2_induct)
  case Nil
  then show ?case by simp
next
  case (Cons row rows row' rows')
  have e: "(Words row = []) = (Words row' = [])"
    using Cons.hyps(1) by (auto simp: sameRuns_def)
  have p: "plainRow (Words row) = plainRow (Words row')"
    using Cons.hyps(1) by (simp add: sameRuns_def plainRow_perm)
  have n: "(rows = []) = (rows' = [])"
    using Cons.hyps(2) by (auto simp: list_all2_Nil list_all2_Nil2)
  show ?case
    using e p n by (simp add: Cons.IH cong: sum.case_cong)
qed

lemma rawRows_perm:
  "list_all2 sameRuns rows rows' \<Longrightarrow> rawRows rows = rawRows rows'"
proof (induction rows rows' rule: list_all2_induct)
  case Nil
  then show ?case by simp
next
  case (Cons row rows row' rows')
  have e: "(Words row = []) = (Words row' = [])"
    using Cons.hyps(1) by (auto simp: sameRuns_def)
  have p: "rawRow (Words row) = rawRow (Words row')"
    using Cons.hyps(1) by (simp add: sameRuns_def rawRow_perm)
  have n: "(rows = []) = (rows' = [])"
    using Cons.hyps(2) by (auto simp: list_all2_Nil list_all2_Nil2)
  show ?case
    using e p n by (simp add: Cons.IH cong: sum.case_cong)
qed

lemma PhysicalLayoutText_perm:
  assumes "r pageNum = PageRows rows" and "r' pageNum = PageRows rows'"
      and "mset (concat (map Words rows)) = mset (concat (map Words rows'))"
      and "distinct (map (\<lambda>t. (X t, Y t)) (concat (map Words rows)))"
  shows "PhysicalLayoutText r pageNum pageWidth = PhysicalLayoutText r' pageNum pageWidth"
proof -
  have "sortSlice lessYX (concat (map Words rows)) = sortSlice lessYX (concat (map Words rows'))"
    using assms(3,4) by (rule sortSlice_lessYX_perm)
  moreover have "(concat (map Words rows) = []) = (concat (map Words rows') = [])"
    using assms(3) by (metis mset_zero_iff)
  ultimately show ?thesis
    using assms(1,2) by (simp only: PhysicalLayoutText_rows)
qed

lemma sameRuns_concat:
  "list_all2 sameRuns rows rows' \<Longrightarrow>
   mset (concat (map Words rows)) = mset (concat (map Words rows'))"
  by (induction rows rows' rule: list_all2_induct) (simp_all add: sameRuns_def)

lemma PageText_perm:
  assumes c: "closed doc = closed doc'"
      and r: "reader doc (Number page) = PageRows rows"
      and r': "reader doc' (Number page) = PageRows rows'"
      and s: "list_all2 sameRuns rows rows'"
      and d: "distinct (map (\<lambda>t. (X t, Y t)) (concat (map Words rows)))"
  shows "PageText doc page opts = PageText doc' page opts"
proof -
  have "PlainText doc page = PlainText doc' page"
    using c r r' plainRows_perm [OF s] by (simp add: PlainText_def PagePlainText_def)
  moreover have "extractRawText doc page = extractRawText doc' page"
    using c r r' rawRows_perm [OF s]
    by (simp add: extractRawText_def TextByRow_def PageTextByRow_def)
  moreover have "PagePhysicalLayoutText doc page w = PagePhysicalLayoutText doc' page w" for w
    using c PhysicalLayoutText_perm [where r = "reader doc" and r' = "reader doc'"
        and pageNum = "Number page", OF r r' sameRuns_concat [OF s] d]
    by (simp add: PagePhysicalLayoutText_def)
  ultimately show ?thesis
    by (simp add: PageText_def Let_def)
qed

text \<open>
  Without ties a sorted list is determined by its elements: whatever procedure
  \<^verbatim>\<open>sort.Slice\<close> runs, it returns the list of the model.
\<close>

lemma sortSlice_unique:
  fixes k :: "'a \<Rightarrow> 'b::linorder"
  assumes lt: "\<And>a b. lt a b = (k a < k b)"
      and "mset ys = mset xs" and "sorted (map k ys)" and "distinct (map k xs)"
  shows "ys = sortSlice lt xs"
proof -
  have "sort_key k xs = sort_key k ys"
    using assms(2,4) by (intro sort_key_perm) simp_all
  also have "\<dots> = ys"
    using assms(3) by (rule sort_key_id_if_sorted)
  finally show ?thesis
    by (simp add: sortSlice_sort_key [OF lt])
qed
section \<open>The word joiners\<close>

text \<open>
  Claim C1. For a row that has runs, the line of the conservative policy and the line
  of the stream-order policy are both the texts of the runs, taken in the row's order
  by \<open>x\<close>, with a separator between each two neighbours that is either empty or one
  space. The runs in that order are the runs of the row, each as often as the row has
  it, so no text is dropped, changed or repeated; a row that is already in order by
  \<open>x\<close> keeps its order.
\<close>

theorem no_content_loss:
  assumes "content \<noteq> []"
  shows "\<exists>seps1 seps2.
           plainRow content = Inr (weave (map S (sortSlice lessX content)) seps1) \<and>
           rawRow content = Inr (weave (map S (sortSlice lessX content)) seps2) \<and>
           length seps1 = length content - 1 \<and> set seps1 \<subseteq> {'''', '' ''} \<and>
           length seps2 = length content - 1 \<and> set seps2 \<subseteq> {'''', '' ''} \<and>
           mset (sortSlice lessX content) = mset content \<and>
           sorted (map X (sortSlice lessX content)) \<and>
           (sorted (map X content) \<longrightarrow> sortSlice lessX content = content)"
proof -
  let ?items = "sortSlice lessX content"
  let ?seps1 = "map (\<lambda>pc. sep (spaceSimple_spec (minCharWidth_spec ?items) pc)) (pairs ?items)"
  let ?seps2 = "map (\<lambda>pc. sep (spaceRaw_spec pc)) (pairs ?items)"
  have len: "length ?items = length content"
    by (simp add: sortSlice_lessX)
  have "plainRow content = Inr (weave (map S ?items) ?seps1)"
    using assms by (rule plainRow_weave)
  moreover have "rawRow content = Inr (weave (map S ?items) ?seps2)"
    using assms by (rule rawRow_weave)
  moreover have "length ?seps1 = length content - 1" "length ?seps2 = length content - 1"
    by (simp_all add: length_pairs len)
  moreover have "set ?seps1 \<subseteq> {'''', '' ''}" "set ?seps2 \<subseteq> {'''', '' ''}"
    by (rule set_sep)+
  moreover have "sorted (map X content) \<longrightarrow> ?items = content"
    by (simp add: sortSlice_lessX sort_key_id_if_sorted)
  ultimately show ?thesis
    using mset_sortSlice_lessX [of content] sorted_sortSlice_lessX [of content]
    by blast
qed

theorem no_content_loss_witness:
  "[ex_world, ex_hello] \<noteq> [] \<and>
   (\<exists>seps1 seps2.
      plainRow [ex_world, ex_hello] = Inr (weave (map S (sortSlice lessX [ex_world, ex_hello])) seps1) \<and>
      rawRow [ex_world, ex_hello] = Inr (weave (map S (sortSlice lessX [ex_world, ex_hello])) seps2) \<and>
      length seps1 = length [ex_world, ex_hello] - 1 \<and> set seps1 \<subseteq> {'''', '' ''} \<and>
      length seps2 = length [ex_world, ex_hello] - 1 \<and> set seps2 \<subseteq> {'''', '' ''} \<and>
      mset (sortSlice lessX [ex_world, ex_hello]) = mset [ex_world, ex_hello] \<and>
      sorted (map X (sortSlice lessX [ex_world, ex_hello])) \<and>
      (sorted (map X [ex_world, ex_hello]) \<longrightarrow> sortSlice lessX [ex_world, ex_hello] = [ex_world, ex_hello]))"
proof -
  have h: "[ex_world, ex_hello] \<noteq> []" by simp
  show ?thesis using h no_content_loss [OF h] by (rule conjI)
qed

text \<open>
  Claim C2. In the conservative policy, when the first run of the sorted row is at
  \<open>x = 0\<close> with a text of five bytes and the width estimate of the row is \<open>2\<close>, the
  line starts with that text, followed by one space exactly when the next run lies
  beyond \<open>11\<close>, followed by the next run's text. At \<open>11\<close> itself no space is written:
  the comparison is strict.
\<close>

theorem threshold_strict:
  assumes "sortSlice lessX content = prev # cur # rest"
      and "X prev = 0" and "length (S prev) = 5"
      and "minCharWidth (sortSlice lessX content) = Inr 2"
  shows "plainRow content =
           Inr (S prev @ (if X cur > 11 then '' '' else '''') @ S cur @ joinSimple 2 (cur # rest))"
proof -
  have "joinSimple 2 (prev # cur # rest)
          = (if X cur > 11 then '' '' else '''') @ S cur @ joinSimple 2 (cur # rest)"
    using assms(2,3) by (simp add: Let_def)
  then show ?thesis
    using assms(1,4) by (simp add: plainRow_def Let_def)
qed

theorem threshold_strict_witness:
  "sortSlice lessX [ex_z 16, ex_hello, ex_ab 12] = [ex_hello, ex_ab 12, ex_z 16] \<and>
   sortSlice lessX [ex_z 15, ex_hello, ex_ab 11] = [ex_hello, ex_ab 11, ex_z 15] \<and>
   X ex_hello = 0 \<and> length (S ex_hello) = 5 \<and>
   minCharWidth (sortSlice lessX [ex_z 16, ex_hello, ex_ab 12]) = Inr 2 \<and>
   minCharWidth (sortSlice lessX [ex_z 15, ex_hello, ex_ab 11]) = Inr 2 \<and>
   plainRow [ex_z 16, ex_hello, ex_ab 12] = Inr ''Hello abz'' \<and>
   plainRow [ex_z 15, ex_hello, ex_ab 11] = Inr ''Helloabz''"
proof -
  have s1: "sortSlice lessX [ex_z 16, ex_hello, ex_ab 12] = [ex_hello, ex_ab 12, ex_z 16]"
    by (simp add: sortSlice_def lessX_def ex_hello_def ex_ab_def ex_z_def)
  have s2: "sortSlice lessX [ex_z 15, ex_hello, ex_ab 11] = [ex_hello, ex_ab 11, ex_z 15]"
    by (simp add: sortSlice_def lessX_def ex_hello_def ex_ab_def ex_z_def)
  have x: "X ex_hello = 0" and l: "length (S ex_hello) = 5"
    by (simp_all add: ex_hello_def)
  have w1: "minCharWidth (sortSlice lessX [ex_z 16, ex_hello, ex_ab 12]) = Inr 2"
    unfolding s1 by (simp add: minCharWidth_def ex_hello_def ex_ab_def ex_z_def)
  have w2: "minCharWidth (sortSlice lessX [ex_z 15, ex_hello, ex_ab 11]) = Inr 2"
    unfolding s2 by (simp add: minCharWidth_def ex_hello_def ex_ab_def ex_z_def)
  have "plainRow [ex_z 16, ex_hello, ex_ab 12] = Inr ''Hello abz''"
    using threshold_strict [OF s1 x l w1] by (simp add: ex_hello_def ex_ab_def ex_z_def)
  moreover have "plainRow [ex_z 15, ex_hello, ex_ab 11] = Inr ''Helloabz''"
    using threshold_strict [OF s2 x l w2] by (simp add: ex_hello_def ex_ab_def ex_z_def)
  ultimately show ?thesis
    using s1 s2 x l w1 w2 by (simp only: simp_thms)
qed

text \<open>
  Claim C3. In the stream-order policy the line of a row is the texts of the runs in
  order by \<open>x\<close>, and the separator between each consecutive pair is one space exactly
  when the gap exceeds \<open>0.3\<close> of the pair's width estimate, where the gap is the
  distance from \<open>prev.x + len(prev.text) * avgCharWidth\<close> to \<open>cur.x\<close> and the estimate is
  half the font size of \<open>prev\<close> if positive, else of \<open>cur\<close> if positive, else of \<open>12\<close>.
\<close>

theorem stream_order_policy:
  assumes "content \<noteq> []"
  shows "rawRow content =
           Inr (weave (map S (sortSlice lessX content))
                  (map (\<lambda>(prev, cur).
                          if X cur - (X prev + real (length (S prev)) * avgCharWidth_spec prev cur)
                               > avgCharWidth_spec prev cur * 0.3
                          then '' '' else '''')
                     (pairs (sortSlice lessX content))))"
proof -
  have "(\<lambda>pc. sep (spaceRaw_spec pc)) =
        (\<lambda>(prev, cur).
            if X cur - (X prev + real (length (S prev)) * avgCharWidth_spec prev cur)
                 > avgCharWidth_spec prev cur * 0.3
            then '' '' else '''')"
    by (rule ext) (auto simp: sep_def spaceRaw_spec_def)
  then show ?thesis
    using rawRow_weave [OF assms] by (simp only:)
qed

theorem stream_order_policy_witness:
  "[ex_world, ex_hello] \<noteq> [] \<and> rawRow [ex_world, ex_hello] = Inr ''Hello World''"
proof -
  have h: "[ex_world, ex_hello] \<noteq> []" by simp
  have s: "sortSlice lessX [ex_world, ex_hello] = [ex_hello, ex_world]"
    by (simp add: sortSlice_def lessX_def ex_hello_def ex_world_def)
  show ?thesis
    using stream_order_policy [OF h] unfolding s
    by (simp add: pairs_def avgCharWidth_spec_def ex_hello_def ex_world_def)
qed

text \<open>
  Claim C4. The width estimate of the conservative policy is the least positive advance
  per character over the consecutive pairs of the sorted row whose first text is not
  empty. When there is none, it is \<open>0.6\<close> of the first run's font size, or of \<open>12\<close> when
  that font size is not positive. A row of one run has no such advance, and its line
  is the run's text and nothing else.
\<close>

theorem conservative_width:
  "(sortSlice lessX content = first # rest \<longrightarrow>
      minCharWidth (sortSlice lessX content) =
        Inr (if positiveAdvances (first # rest) = []
             then (if FontSize first \<le> 0 then 12 * 0.6 else FontSize first * 0.6)
             else Min (set (positiveAdvances (first # rest))))) \<and>
   positiveAdvances [t] = [] \<and>
   plainRow [t] = Inr (S t)"
proof -
  have "plainRow [t] = Inr (S t)"
    by (simp add: plainRow_def sortSlice_def minCharWidth_def)
  then show ?thesis
    by (simp add: minCharWidth_Cons fallbackWidth_def)
qed

theorem conservative_width_witness:
  "sortSlice lessX [ex_world, ex_hello] = [ex_hello, ex_world] \<and>
   positiveAdvances [ex_hello, ex_world] = [8] \<and>
   minCharWidth (sortSlice lessX [ex_world, ex_hello]) = Inr 8 \<and>
   plainRow [ex_hello] = Inr ''Hello''"
proof -
  have s: "sortSlice lessX [ex_world, ex_hello] = [ex_hello, ex_world]"
    by (simp add: sortSlice_def lessX_def ex_hello_def ex_world_def)
  have a: "positiveAdvances [ex_hello, ex_world] = [8]"
    by (simp add: positiveAdvances_def pairs_def ex_hello_def ex_world_def)
  show ?thesis
    using conservative_width [of "[ex_world, ex_hello]" ex_hello "[ex_world]" ex_hello] s a
    by (simp add: ex_hello_def)
qed



section \<open>The line assembler and the grid\<close>

text \<open>
  Claim C5. The line assembler sorts the runs of the page by \<open>y\<close> descending and, among
  equal \<open>y\<close>, by \<open>x\<close> ascending; the sorted runs are the runs of the page. It then walks
  them: a run opens a new line when there is no line yet or when its \<open>y\<close> differs from
  the \<open>y\<close> kept by the last line by more than \<open>2\<close>, and joins the last line otherwise.
  The \<open>y\<close> a line keeps is that of its first run and never changes, every run of a
  line is within \<open>2\<close> of it, and the lines in order hold the sorted runs in order. A
  page of two runs at \<open>y = 100\<close> and \<open>y = 101.5\<close> is one line; a page of two runs at
  \<open>y = 100\<close> and \<open>y = 103\<close> is two lines.
\<close>

theorem line_assembler:
  "mset (sortSlice lessYX styledTexts) = mset styledTexts \<and>
   sorted_wrt (\<lambda>a b. Y a > Y b \<or> (Y a = Y b \<and> X a \<le> X b)) (sortSlice lessYX styledTexts) \<and>
   groupLines [] = [] \<and>
   groupLines (xs @ [st]) =
     (if groupLines xs = [] \<or> \<bar>line_y (last (groupLines xs)) - Y st\<bar> > 2
      then groupLines xs @ [\<lparr>line_y = Y st, texts = [st]\<rparr>]
      else butlast (groupLines xs)
             @ [(last (groupLines xs))\<lparr>texts := texts (last (groupLines xs)) @ [st]\<rparr>]) \<and>
   (\<forall>l \<in> set (groupLines xs).
      texts l \<noteq> [] \<and> line_y l = Y (hd (texts l)) \<and>
      (\<forall>t \<in> set (texts l). \<bar>line_y l - Y t\<bar> \<le> 2)) \<and>
   concat (map texts (groupLines xs)) = xs \<and>
   (Y a = 100 \<and> Y b = 101.5 \<longrightarrow>
      groupLines (sortSlice lessYX [a, b]) = [\<lparr>line_y = 101.5, texts = [b, a]\<rparr>] \<and>
      groupLines (sortSlice lessYX [b, a]) = [\<lparr>line_y = 101.5, texts = [b, a]\<rparr>]) \<and>
   (Y a = 100 \<and> Y b = 103 \<longrightarrow>
      groupLines (sortSlice lessYX [a, b])
        = [\<lparr>line_y = 103, texts = [b]\<rparr>, \<lparr>line_y = 100, texts = [a]\<rparr>] \<and>
      groupLines (sortSlice lessYX [b, a])
        = [\<lparr>line_y = 103, texts = [b]\<rparr>, \<lparr>line_y = 100, texts = [a]\<rparr>])"
proof (intro conjI)
  show "mset (sortSlice lessYX styledTexts) = mset styledTexts"
    by (simp add: sortSlice_lessYX)
  show "sorted_wrt (\<lambda>a b. Y a > Y b \<or> (Y a = Y b \<and> X a \<le> X b)) (sortSlice lessYX styledTexts)"
    by (rule sorted_sortSlice_lessYX)
  show "groupLines [] = []"
    by (rule groupLines_Nil)
  show "groupLines (xs @ [st]) =
     (if groupLines xs = [] \<or> \<bar>line_y (last (groupLines xs)) - Y st\<bar> > 2
      then groupLines xs @ [\<lparr>line_y = Y st, texts = [st]\<rparr>]
      else butlast (groupLines xs)
             @ [(last (groupLines xs))\<lparr>texts := texts (last (groupLines xs)) @ [st]\<rparr>])"
    by (rule groupLines_snoc)
  show "\<forall>l \<in> set (groupLines xs).
      texts l \<noteq> [] \<and> line_y l = Y (hd (texts l)) \<and>
      (\<forall>t \<in> set (texts l). \<bar>line_y l - Y t\<bar> \<le> 2)"
    using groupLines_anchor [of _ xs] groupLines_within [of _ xs] by blast
  show "concat (map texts (groupLines xs)) = xs"
    by (rule groupLines_concat)
  show "Y a = 100 \<and> Y b = 101.5 \<longrightarrow>
      groupLines (sortSlice lessYX [a, b]) = [\<lparr>line_y = 101.5, texts = [b, a]\<rparr>] \<and>
      groupLines (sortSlice lessYX [b, a]) = [\<lparr>line_y = 101.5, texts = [b, a]\<rparr>]"
    by (simp add: sortSlice_def lessYX_def groupLines_def linesOf_def abs_float_def
        yTolerance_def)
  show "Y a = 100 \<and> Y b = 103 \<longrightarrow>
      groupLines (sortSlice lessYX [a, b])
        = [\<lparr>line_y = 103, texts = [b]\<rparr>, \<lparr>line_y = 100, texts = [a]\<rparr>] \<and>
      groupLines (sortSlice lessYX [b, a])
        = [\<lparr>line_y = 103, texts = [b]\<rparr>, \<lparr>line_y = 100, texts = [a]\<rparr>]"
    by (simp add: sortSlice_def lessYX_def groupLines_def linesOf_def abs_float_def
        yTolerance_def)
qed

theorem line_assembler_witness:
  "sortSlice lessYX [ex_at 50 100 ''c'', ex_at 10 101.5 ''a'', ex_at 30 100 ''b'', ex_at 0 103 ''t'']
     = [ex_at 0 103 ''t'', ex_at 10 101.5 ''a'', ex_at 30 100 ''b'', ex_at 50 100 ''c''] \<and>
   groupLines [ex_at 0 103 ''t'', ex_at 10 101.5 ''a'', ex_at 30 100 ''b'', ex_at 50 100 ''c'']
     = [\<lparr>line_y = 103, texts = [ex_at 0 103 ''t'', ex_at 10 101.5 ''a'']\<rparr>,
        \<lparr>line_y = 100, texts = [ex_at 30 100 ''b'', ex_at 50 100 ''c'']\<rparr>] \<and>
   groupLines (sortSlice lessYX [ex_at 30 100 ''b'', ex_at 10 101.5 ''a''])
     = [\<lparr>line_y = 101.5, texts = [ex_at 10 101.5 ''a'', ex_at 30 100 ''b'']\<rparr>] \<and>
   groupLines (sortSlice lessYX [ex_at 30 100 ''b'', ex_at 0 103 ''t''])
     = [\<lparr>line_y = 103, texts = [ex_at 0 103 ''t'']\<rparr>, \<lparr>line_y = 100, texts = [ex_at 30 100 ''b'']\<rparr>]"
proof -
  have y: "Y (ex_at 30 100 ''b'') = 100" "Y (ex_at 10 101.5 ''a'') = 101.5" "Y (ex_at 0 103 ''t'') = 103"
    by (simp_all add: ex_at_def)
  have s: "sortSlice lessYX [ex_at 50 100 ''c'', ex_at 10 101.5 ''a'', ex_at 30 100 ''b'', ex_at 0 103 ''t'']
     = [ex_at 0 103 ''t'', ex_at 10 101.5 ''a'', ex_at 30 100 ''b'', ex_at 50 100 ''c'']"
    by (simp add: sortSlice_def lessYX_def ex_at_def)
  have g: "groupLines [ex_at 0 103 ''t'', ex_at 10 101.5 ''a'', ex_at 30 100 ''b'', ex_at 50 100 ''c'']
     = [\<lparr>line_y = 103, texts = [ex_at 0 103 ''t'', ex_at 10 101.5 ''a'']\<rparr>,
        \<lparr>line_y = 100, texts = [ex_at 30 100 ''b'', ex_at 50 100 ''c'']\<rparr>]"
    by (simp add: groupLines_def linesOf_def abs_float_def yTolerance_def ex_at_def)
  have e1: "Y (ex_at 30 100 ''b'') = 100 \<and> Y (ex_at 10 101.5 ''a'') = 101.5 \<longrightarrow>
      groupLines (sortSlice lessYX [ex_at 30 100 ''b'', ex_at 10 101.5 ''a''])
        = [\<lparr>line_y = 101.5, texts = [ex_at 10 101.5 ''a'', ex_at 30 100 ''b'']\<rparr>] \<and>
      groupLines (sortSlice lessYX [ex_at 10 101.5 ''a'', ex_at 30 100 ''b''])
        = [\<lparr>line_y = 101.5, texts = [ex_at 10 101.5 ''a'', ex_at 30 100 ''b'']\<rparr>]"
    using line_assembler [of "[]" "[]" "ex_at 30 100 ''b''" "ex_at 30 100 ''b''" "ex_at 10 101.5 ''a''"]
    by (elim conjE)
  have e2: "Y (ex_at 30 100 ''b'') = 100 \<and> Y (ex_at 0 103 ''t'') = 103 \<longrightarrow>
      groupLines (sortSlice lessYX [ex_at 30 100 ''b'', ex_at 0 103 ''t''])
        = [\<lparr>line_y = 103, texts = [ex_at 0 103 ''t'']\<rparr>, \<lparr>line_y = 100, texts = [ex_at 30 100 ''b'']\<rparr>] \<and>
      groupLines (sortSlice lessYX [ex_at 0 103 ''t'', ex_at 30 100 ''b''])
        = [\<lparr>line_y = 103, texts = [ex_at 0 103 ''t'']\<rparr>, \<lparr>line_y = 100, texts = [ex_at 30 100 ''b'']\<rparr>]"
    using line_assembler [of "[]" "[]" "ex_at 30 100 ''b''" "ex_at 30 100 ''b''" "ex_at 0 103 ''t''"]
    by (elim conjE)
  show ?thesis
    using e1 e2 y s g by (simp only: simp_thms)
qed



section \<open>The extraction facade\<close>

text \<open>
  Claim C7. Extraction of a whole document visits the pages in order and stops at the
  first page whose extraction fails: when the pages before it succeed, the result of
  \<open>AllPages\<close> and of \<open>Text\<close> is the error of that page wrapped with the page's number,
  and no texts are returned. When \<open>AllPages\<close> succeeds, its result holds the text of
  every page in order. Page numbers count from \<open>1\<close>. For a document of three pages
  whose first page has rows and whose second page fails, the error names page \<open>2\<close>,
  whatever the third page is.
\<close>

theorem fail_fast:
  "(\<not> closed doc \<and> pages doc = before @ page # after \<and>
    (\<forall>p \<in> set before. \<exists>t. PageText doc p opts = Inr t) \<and>
    PageText doc page opts = Inl err \<longrightarrow>
      AllPages doc opts = Inl (Wrap ''failed to extract text from page'' (Number page) err) \<and>
      Text doc opts = Inl (Wrap ''failed to extract text from page'' (Number page) err)) \<and>
   (AllPages doc opts = Inr result \<longrightarrow>
      map Inr result = map (\<lambda>p. PageText doc p opts) (pages doc)) \<and>
   map Number (pages (Open r n)) = map int [1..<Suc n] \<and>
   (r 1 = PageRows rows1 \<and> PageText (Open r 3) \<lparr>Number = 2\<rparr> opts = Inl err2 \<longrightarrow>
      AllPages (Open r 3) opts = Inl (Wrap ''failed to extract text from page'' 2 err2) \<and>
      Text (Open r 3) opts = Inl (Wrap ''failed to extract text from page'' 2 err2))"
proof (intro conjI impI)
  assume a: "\<not> closed doc \<and> pages doc = before @ page # after \<and>
    (\<forall>p \<in> set before. \<exists>t. PageText doc p opts = Inr t) \<and>
    PageText doc page opts = Inl err"
  show "AllPages doc opts = Inl (Wrap ''failed to extract text from page'' (Number page) err)"
    using a by (intro AllPages_fail(1) [of doc before page after]) simp_all
  show "Text doc opts = Inl (Wrap ''failed to extract text from page'' (Number page) err)"
    using a by (intro AllPages_fail(2) [of doc before page after]) simp_all
next
  assume "AllPages doc opts = Inr result"
  then show "map Inr result = map (\<lambda>p. PageText doc p opts) (pages doc)"
    by (rule AllPages_ok)
next
  show "map Number (pages (Open r n)) = map int [1..<Suc n]"
    by (rule Number_pages_Open)
next
  assume b: "r 1 = PageRows rows1 \<and> PageText (Open r 3) \<lparr>Number = 2\<rparr> opts = Inl err2"
  have o: "\<not> closed (Open r 3)" by (simp add: Open_def)
  have "reader (Open r 3) (Number \<lparr>Number = 1\<rparr>) = PageRows rows1"
    using b by (simp add: Open_def)
  then have "\<exists>t. PageText (Open r 3) \<lparr>Number = 1\<rparr> opts = Inr t"
    using o by (intro PageText_rows)
  then have f: "\<forall>p \<in> set [\<lparr>Number = 1\<rparr>]. \<exists>t. PageText (Open r 3) p opts = Inr t"
    by simp
  have e: "PageText (Open r 3) \<lparr>Number = 2\<rparr> opts = Inl err2"
    using b by simp
  show "AllPages (Open r 3) opts = Inl (Wrap ''failed to extract text from page'' 2 err2)"
    using AllPages_fail(1) [OF o pages_Open3 f e] by simp
  show "Text (Open r 3) opts = Inl (Wrap ''failed to extract text from page'' 2 err2)"
    using AllPages_fail(2) [OF o pages_Open3 f e] by simp
qed

theorem fail_fast_witness:
  "ex_reader3 1 = PageRows [\<lparr>Position = 700, Words = [ex_world, ex_hello]\<rparr>] \<and>
   PageText (Open ex_reader3 3) \<lparr>Number = 2\<rparr> []
     = Inl (Wrap ''failed to get text for page'' 2 (Cause ''boom'')) \<and>
   AllPages (Open ex_reader3 3) []
     = Inl (Wrap ''failed to extract text from page'' 2
             (Wrap ''failed to get text for page'' 2 (Cause ''boom''))) \<and>
   Text (Open ex_reader3 3) []
     = Inl (Wrap ''failed to extract text from page'' 2
             (Wrap ''failed to get text for page'' 2 (Cause ''boom'')))"
proof -
  have h1: "ex_reader3 1 = PageRows [\<lparr>Position = 700, Words = [ex_world, ex_hello]\<rparr>]"
    by (simp add: ex_reader3_def)
  have h2: "PageText (Open ex_reader3 3) \<lparr>Number = 2\<rparr> []
     = Inl (Wrap ''failed to get text for page'' 2 (Cause ''boom''))"
    by (simp add: PageText_def applyOptions_def defaultConfig_def PlainText_def Open_def
        PagePlainText_def ex_reader3_def)
  have "ex_reader3 1 = PageRows [\<lparr>Position = 700, Words = [ex_world, ex_hello]\<rparr>] \<and>
        PageText (Open ex_reader3 3) \<lparr>Number = 2\<rparr> []
          = Inl (Wrap ''failed to get text for page'' 2 (Cause ''boom'')) \<longrightarrow>
        AllPages (Open ex_reader3 3) []
          = Inl (Wrap ''failed to extract text from page'' 2
                  (Wrap ''failed to get text for page'' 2 (Cause ''boom''))) \<and>
        Text (Open ex_reader3 3) []
          = Inl (Wrap ''failed to extract text from page'' 2
                  (Wrap ''failed to get text for page'' 2 (Cause ''boom'')))"
    using fail_fast [where r = ex_reader3 and opts = "[]"
        and ?rows1.0 = "[\<lparr>Position = 700, Words = [ex_world, ex_hello]\<rparr>]"
        and ?err2.0 = "Wrap ''failed to get text for page'' 2 (Cause ''boom'')",
        THEN conjunct2, THEN conjunct2, THEN conjunct2] .
  then show ?thesis
    using h1 h2 by (simp only: simp_thms)
qed

text \<open>
  Claim C8. On a closed document every extraction operation returns
  \<open>ErrDocumentClosed\<close>, for every layout and whatever the reader would answer:
  \<open>Text\<close>, \<open>AllPages\<close>, \<open>PageText\<close> and the page operations \<open>PlainText\<close>, \<open>TextByRow\<close>,
  \<open>StyledTexts\<close> and \<open>PhysicalLayoutText\<close>. A document is closed after \<open>Close\<close>. The
  reconstruction itself always returns a string: both word joiners for any rows, the
  grid for any runs, and \<open>PageText\<close> on an open document whose page has rows. No
  extraction ends in a run-time panic.
\<close>

theorem closed_and_total:
  "(closed doc \<longrightarrow>
      Text doc opts = Inl ErrDocumentClosed \<and>
      AllPages doc opts = Inl ErrDocumentClosed \<and>
      PageText doc page opts = Inl ErrDocumentClosed \<and>
      PlainText doc page = Inl ErrDocumentClosed \<and>
      TextByRow doc page = Inl ErrDocumentClosed \<and>
      StyledTexts doc page = Inl ErrDocumentClosed \<and>
      PagePhysicalLayoutText doc page pageWidth = Inl ErrDocumentClosed \<and>
      extractRawText doc page = Inl ErrDocumentClosed) \<and>
   closed (Close doc) \<and>
   (\<exists>out. plainRows rows = Inr out) \<and>
   (\<exists>out. rawRows rows = Inr out) \<and>
   (\<exists>out. renderLines cw (groupLines (sortSlice lessYX styledTexts)) = Inr out) \<and>
   (r pageNum = PageRows rows \<longrightarrow>
      (\<exists>out. PagePlainText r pageNum = Inr out) \<and>
      (\<exists>out. PhysicalLayoutText r pageNum pageWidth = Inr out)) \<and>
   (\<not> closed doc \<and> reader doc (Number page) = PageRows rows \<longrightarrow>
      (\<exists>out. PageText doc page opts = Inr out)) \<and>
   PageText doc page opts \<noteq> Inl RuntimePanic"
proof (intro conjI impI)
  assume c: "closed doc"
  show "Text doc opts = Inl ErrDocumentClosed"
    using c by (simp add: Text_def IsClosed_def)
  show "AllPages doc opts = Inl ErrDocumentClosed"
    using c by (simp add: AllPages_def IsClosed_def)
  show "PageText doc page opts = Inl ErrDocumentClosed"
    using c by (rule PageText_closed)
  show "PlainText doc page = Inl ErrDocumentClosed"
    using c by (simp add: PlainText_def)
  show "TextByRow doc page = Inl ErrDocumentClosed"
    using c by (simp add: TextByRow_def)
  show "StyledTexts doc page = Inl ErrDocumentClosed"
    using c by (simp add: StyledTexts_def)
  show "PagePhysicalLayoutText doc page pageWidth = Inl ErrDocumentClosed"
    using c by (simp add: PagePhysicalLayoutText_def)
  show "extractRawText doc page = Inl ErrDocumentClosed"
    using c by (simp add: extractRawText_def TextByRow_def)
next
  show "closed (Close doc)"
    by (simp add: Close_def)
  show "\<exists>out. plainRows rows = Inr out"
    by (rule plainRows_total)
  show "\<exists>out. rawRows rows = Inr out"
    by (rule rawRows_total)
  show "\<exists>out. renderLines cw (groupLines (sortSlice lessYX styledTexts)) = Inr out"
    by (simp add: renderLines_Join)
  show "PageText doc page opts \<noteq> Inl RuntimePanic"
    by (rule PageText_no_panic)
next
  assume "r pageNum = PageRows rows"
  then show "\<exists>out. PagePlainText r pageNum = Inr out"
    using plainRows_total by (simp add: PagePlainText_def)
next
  assume "r pageNum = PageRows rows"
  then show "\<exists>out. PhysicalLayoutText r pageNum pageWidth = Inr out"
    by (rule PhysicalLayoutText_total)
next
  assume "\<not> closed doc \<and> reader doc (Number page) = PageRows rows"
  then show "\<exists>out. PageText doc page opts = Inr out"
    using PageText_rows [of doc page rows opts] by simp
qed

theorem closed_and_total_witness:
  "closed (Close (Open ex_reader 1)) \<and>
   Text (Close (Open ex_reader 1)) [WithLayout LayoutPhysical] = Inl ErrDocumentClosed \<and>
   PageText (Close (Open ex_reader 1)) \<lparr>Number = 1\<rparr> [WithLayout LayoutRaw] = Inl ErrDocumentClosed \<and>
   \<not> closed (Open ex_reader 1) \<and>
   reader (Open ex_reader 1) (Number \<lparr>Number = 1\<rparr>)
     = PageRows
          [\<lparr>Position = 100, Words = [ex_at 650.25 100 ''abc'', ex_at 15.3 100 ''hi  '']\<rparr>,
           \<lparr>Position = 50, Words = [ex_at 0 50 ''end'']\<rparr>] \<and>
   (\<exists>out. PageText (Open ex_reader 1) \<lparr>Number = 1\<rparr> [WithLayout LayoutRaw] = Inr out) \<and>
   Text (Open ex_reader 1) [WithLayout LayoutRaw] = Inr (''hi   abc'' @ [CHR 0x0A] @ ''end'')"
proof -
  have c: "closed (Close (Open ex_reader 1))"
    by (simp add: Close_def)
  have o: "\<not> closed (Open ex_reader 1)"
    by (simp add: Open_def)
  have rd: "reader (Open ex_reader 1) (Number \<lparr>Number = 1\<rparr>)
     = PageRows
          [\<lparr>Position = 100, Words = [ex_at 650.25 100 ''abc'', ex_at 15.3 100 ''hi  '']\<rparr>,
           \<lparr>Position = 50, Words = [ex_at 0 50 ''end'']\<rparr>]"
    by (simp add: Open_def ex_reader_def)
  note t1 = closed_and_total [where doc = "Close (Open ex_reader 1)"
      and opts = "[WithLayout LayoutPhysical]", THEN conjunct1, THEN mp, OF c]
  note t2 = closed_and_total [where doc = "Close (Open ex_reader 1)"
      and page = "\<lparr>Number = 1\<rparr>"
      and opts = "[WithLayout LayoutRaw]", THEN conjunct1, THEN mp, OF c]
  have t3: "\<exists>out. PageText (Open ex_reader 1) \<lparr>Number = 1\<rparr> [WithLayout LayoutRaw] = Inr out"
    using closed_and_total [where doc = "Open ex_reader 1" and page = "\<lparr>Number = 1\<rparr>"
        and opts = "[WithLayout LayoutRaw]"
        and rows = "[\<lparr>Position = 100, Words = [ex_at 650.25 100 ''abc'', ex_at 15.3 100 ''hi  '']\<rparr>,
           \<lparr>Position = 50, Words = [ex_at 0 50 ''end'']\<rparr>]"] o rd
    by blast
  have t4: "Text (Open ex_reader 1) [WithLayout LayoutRaw] = Inr (''hi   abc'' @ [CHR 0x0A] @ ''end'')"
    by code_simp
  show ?thesis
    using c t1 t2 o rd t3 t4 by (simp only: simp_thms)
qed

section \<open>Permuted input\<close>

text \<open>
  Claim C9, as amended. Extraction does not depend on the order of its input when
  positions do not tie. When the rows of two pages hold the same runs row by row and
  no two runs of a row share their \<open>x\<close>, the conservative and the stream-order policy
  give the same text for both pages. When two pages hold the same runs and no two runs
  share their position \<open>(x, y)\<close>, the physical layout gives the same text for both.
  Under both conditions \<open>PageText\<close> agrees on the two pages for every layout.
\<close>

theorem determinism_without_ties:
  "(r pageNum = PageRows rows \<and> r' pageNum = PageRows rows' \<and>
    list_all2 sameRuns rows rows' \<longrightarrow>
      PagePlainText r pageNum = PagePlainText r' pageNum \<and> rawRows rows = rawRows rows') \<and>
   (r pageNum = PageRows rows \<and> r' pageNum = PageRows rows' \<and>
    mset (concat (map Words rows)) = mset (concat (map Words rows')) \<and>
    distinct (map (\<lambda>t. (X t, Y t)) (concat (map Words rows))) \<longrightarrow>
      PhysicalLayoutText r pageNum pageWidth = PhysicalLayoutText r' pageNum pageWidth) \<and>
   (closed doc = closed doc' \<and>
    reader doc (Number page) = PageRows rows \<and> reader doc' (Number page) = PageRows rows' \<and>
    list_all2 sameRuns rows rows' \<and>
    distinct (map (\<lambda>t. (X t, Y t)) (concat (map Words rows))) \<longrightarrow>
      PageText doc page opts = PageText doc' page opts)"
proof (intro conjI impI)
  assume a: "r pageNum = PageRows rows \<and> r' pageNum = PageRows rows' \<and>
    list_all2 sameRuns rows rows'"
  then show "PagePlainText r pageNum = PagePlainText r' pageNum"
    using plainRows_perm [of rows rows'] by (simp add: PagePlainText_def)
  from a show "rawRows rows = rawRows rows'"
    using rawRows_perm [of rows rows'] by simp
next
  assume "r pageNum = PageRows rows \<and> r' pageNum = PageRows rows' \<and>
    mset (concat (map Words rows)) = mset (concat (map Words rows')) \<and>
    distinct (map (\<lambda>t. (X t, Y t)) (concat (map Words rows)))"
  then show "PhysicalLayoutText r pageNum pageWidth = PhysicalLayoutText r' pageNum pageWidth"
    using PhysicalLayoutText_perm [of r pageNum rows r' rows' pageWidth] by blast
next
  assume "closed doc = closed doc' \<and>
    reader doc (Number page) = PageRows rows \<and> reader doc' (Number page) = PageRows rows' \<and>
    list_all2 sameRuns rows rows' \<and>
    distinct (map (\<lambda>t. (X t, Y t)) (concat (map Words rows)))"
  then show "PageText doc page opts = PageText doc' page opts"
    using PageText_perm [of doc doc' page rows rows' opts] by blast
qed

theorem determinism_without_ties_witness:
  "closed (Open (ex_one_row [ex_world, ex_hello]) 1) = closed (Open (ex_one_row [ex_hello, ex_world]) 1) \<and>
   reader (Open (ex_one_row [ex_world, ex_hello]) 1) (Number \<lparr>Number = 1\<rparr>)
     = PageRows [\<lparr>Position = 100, Words = [ex_world, ex_hello]\<rparr>] \<and>
   reader (Open (ex_one_row [ex_hello, ex_world]) 1) (Number \<lparr>Number = 1\<rparr>)
     = PageRows [\<lparr>Position = 100, Words = [ex_hello, ex_world]\<rparr>] \<and>
   list_all2 sameRuns [\<lparr>Position = 100, Words = [ex_world, ex_hello]\<rparr>]
     [\<lparr>Position = 100, Words = [ex_hello, ex_world]\<rparr>] \<and>
   distinct (map (\<lambda>t. (X t, Y t))
     (concat (map Words [\<lparr>Position = 100, Words = [ex_world, ex_hello]\<rparr>]))) \<and>
   PageText (Open (ex_one_row [ex_world, ex_hello]) 1) \<lparr>Number = 1\<rparr> [WithLayout LayoutPhysical]
     = PageText (Open (ex_one_row [ex_hello, ex_world]) 1) \<lparr>Number = 1\<rparr> [WithLayout LayoutPhysical] \<and>
   PageText (Open (ex_one_row [ex_world, ex_hello]) 1) \<lparr>Number = 1\<rparr> [WithLayout LayoutPhysical]
     = Inr ''HelloWorld''"
proof -
  have c: "closed (Open (ex_one_row [ex_world, ex_hello]) 1)
             = closed (Open (ex_one_row [ex_hello, ex_world]) 1)"
    by (simp add: Open_def)
  have r1: "reader (Open (ex_one_row [ex_world, ex_hello]) 1) (Number \<lparr>Number = 1\<rparr>)
     = PageRows [\<lparr>Position = 100, Words = [ex_world, ex_hello]\<rparr>]"
    by (simp add: Open_def ex_one_row_def)
  have r2: "reader (Open (ex_one_row [ex_hello, ex_world]) 1) (Number \<lparr>Number = 1\<rparr>)
     = PageRows [\<lparr>Position = 100, Words = [ex_hello, ex_world]\<rparr>]"
    by (simp add: Open_def ex_one_row_def)
  have s: "list_all2 sameRuns [\<lparr>Position = 100, Words = [ex_world, ex_hello]\<rparr>]
     [\<lparr>Position = 100, Words = [ex_hello, ex_world]\<rparr>]"
    by (simp add: sameRuns_def ex_hello_def ex_world_def)
  have d: "distinct (map (\<lambda>t. (X t, Y t))
     (concat (map Words [\<lparr>Position = 100, Words = [ex_world, ex_hello]\<rparr>])))"
    by (simp add: ex_hello_def ex_world_def)
  have e: "PageText (Open (ex_one_row [ex_world, ex_hello]) 1) \<lparr>Number = 1\<rparr> [WithLayout LayoutPhysical]
     = PageText (Open (ex_one_row [ex_hello, ex_world]) 1) \<lparr>Number = 1\<rparr> [WithLayout LayoutPhysical]"
    using determinism_without_ties [where doc = "Open (ex_one_row [ex_world, ex_hello]) 1"
        and doc' = "Open (ex_one_row [ex_hello, ex_world]) 1" and page = "\<lparr>Number = 1\<rparr>"
        and rows = "[\<lparr>Position = 100, Words = [ex_world, ex_hello]\<rparr>]"
        and rows' = "[\<lparr>Position = 100, Words = [ex_hello, ex_world]\<rparr>]"
        and opts = "[WithLayout LayoutPhysical]",
        THEN conjunct2, THEN conjunct2, THEN mp] c r1 r2 s d
    by (simp only: simp_thms)
  have v: "PageText (Open (ex_one_row [ex_world, ex_hello]) 1) \<lparr>Number = 1\<rparr> [WithLayout LayoutPhysical]
     = Inr ''HelloWorld''"
    by code_simp
  show ?thesis
    using c r1 r2 s d e v by (simp only: simp_thms)
qed

text \<open>
  Claim C9 as stated fails when positions tie: runs with equal \<open>x\<close> stay in their
  input order. Two runs \<open>A\<close> and \<open>B\<close> at the same position give \<open>AB\<close> or \<open>BA\<close> in the
  word joiners and \<open>B\<close> or \<open>A\<close> in the grid, depending on the order of the row.
\<close>

theorem determinism_counterexample:
  "mset [ex_at 0 100 ''A'', ex_at 0 100 ''B''] = mset [ex_at 0 100 ''B'', ex_at 0 100 ''A''] \<and>
   PageText (Open (ex_one_row [ex_at 0 100 ''A'', ex_at 0 100 ''B'']) 1) \<lparr>Number = 1\<rparr>
      [WithLayout LayoutSimple] = Inr ''AB'' \<and>
   PageText (Open (ex_one_row [ex_at 0 100 ''B'', ex_at 0 100 ''A'']) 1) \<lparr>Number = 1\<rparr>
      [WithLayout LayoutSimple] = Inr ''BA'' \<and>
   PageText (Open (ex_one_row [ex_at 0 100 ''A'', ex_at 0 100 ''B'']) 1) \<lparr>Number = 1\<rparr>
      [WithLayout LayoutRaw] = Inr ''AB'' \<and>
   PageText (Open (ex_one_row [ex_at 0 100 ''B'', ex_at 0 100 ''A'']) 1) \<lparr>Number = 1\<rparr>
      [WithLayout LayoutRaw] = Inr ''BA'' \<and>
   PageText (Open (ex_one_row [ex_at 0 100 ''A'', ex_at 0 100 ''B'']) 1) \<lparr>Number = 1\<rparr>
      [WithLayout LayoutPhysical] = Inr ''B'' \<and>
   PageText (Open (ex_one_row [ex_at 0 100 ''B'', ex_at 0 100 ''A'']) 1) \<lparr>Number = 1\<rparr>
      [WithLayout LayoutPhysical] = Inr ''A'' \<and>
   PageText (Open (ex_one_row [ex_at 0 100 ''A'', ex_at 0 100 ''B'']) 1) \<lparr>Number = 1\<rparr>
      [WithLayout LayoutSimple]
     \<noteq> PageText (Open (ex_one_row [ex_at 0 100 ''B'', ex_at 0 100 ''A'']) 1) \<lparr>Number = 1\<rparr>
      [WithLayout LayoutSimple]"
proof (intro conjI)
  show "mset [ex_at 0 100 ''A'', ex_at 0 100 ''B''] = mset [ex_at 0 100 ''B'', ex_at 0 100 ''A'']"
    by (simp add: add_mset_commute)
qed code_simp+


end
